theory Spec2Isabelle
  imports Complex_Main
begin

section \<open>Errors\<close>

text \<open>
  The exceptions the modelled code can raise: Python's built-in ones, brian2's
  \<open>DimensionMismatchError\<close> and the trainer's own.  A \<open>TrainerError\<close> carries its
  payload: \<open>train\<close> raises it with the dictionary
  \<open>{"message": "Working on empty picture!", "picture": n}\<close>, the websocket reporter
  with a plain message.
\<close>

datatype trainer_error_payload = EmptyPicture int | WebsocketRejected

datatype error =
    IndexError
  | KeyError
  | ValueError
  | TypeError
  | ZeroDivisionError
  | DimensionMismatchError
  | TrainerError trainer_error_payload

section \<open>parameters.py\<close>

text \<open>
  Quantities with a unit are reals in SI units (seconds), so \<open>ms\<close> is a thousandth.
  The synapse constants are the entries of the \<open>namespace\<close> of \<open>ZengSTDPSynapses\<close>.
\<close>

definition ms :: real where
  "ms = 1 / 1000"

definition tau_LTP :: real where
  "tau_LTP = 20 * ms"

definition tau_LTD :: real where
  "tau_LTD = 20 * ms"

definition ALTP :: real where
  "ALTP = 1"

definition ALTD :: real where
  "ALTD = - 1"

definition aLTP :: real where
  "aLTP = 2 * 10 powi (- 2)"

definition aLTD :: real where
  "aLTD = 2.4 * 10 powi (- 2)"

definition w_max :: real where
  "w_max = 0.4"

section \<open>tools/image.py\<close>

text \<open>
  Pixels are the averages produced by \<open>image_compress_half\<close> and are reals.  The two
  nested \<open>for\<close> loops of \<open>image2spikes\<close> thread the triple of the index list, the
  time list and \<open>pix_id\<close>.
\<close>

fun scan_line :: "real list \<Rightarrow> real \<Rightarrow> nat list \<times> real list \<times> nat \<Rightarrow> nat list \<times> real list \<times> nat" where
  "scan_line [] spike_time st = st"
| "scan_line (pixel # line) spike_time (indices, times', pix_id) =
     scan_line line spike_time
       (if pixel > 128
        then (indices @ [pix_id], times' @ [spike_time], pix_id + 1)
        else (indices, times', pix_id + 1))"

fun scan_map :: "real list list \<Rightarrow> real \<Rightarrow> nat list \<times> real list \<times> nat \<Rightarrow> nat list \<times> real list \<times> nat" where
  "scan_map [] spike_time st = st"
| "scan_map (line # pixel_map) spike_time st =
     scan_map pixel_map spike_time (scan_line line spike_time st)"

definition image2spikes :: "real list list \<Rightarrow> real \<Rightarrow> nat list \<times> real list" where
  "image2spikes pixel_map spike_time =
     (case scan_map pixel_map spike_time ([], [], 0) of
        (indices, times', pix_id) \<Rightarrow> (indices, times'))"

section \<open>tools/data.py\<close>

text \<open>
  A spike train is a Python dictionary from neuron index to the list of its spike
  times.  Iteration follows insertion order, so the dictionary is an association list
  (with distinct keys); \<open>spike_train[i]\<close> is a lookup that raises \<open>KeyError\<close> on a
  missing key, \<open>spikes[i]\<close> on a list raises \<open>IndexError\<close> out of range.
\<close>

type_synonym spike_train = "(nat \<times> real list) list"

definition getitem :: "('k \<times> 'v) list \<Rightarrow> 'k \<Rightarrow> error + 'v" where
  "getitem d k = (case map_of d k of None \<Rightarrow> Inl KeyError | Some v \<Rightarrow> Inr v)"

definition list_getitem :: "'a list \<Rightarrow> nat \<Rightarrow> error + 'a" where
  "list_getitem xs i = (if i < length xs then Inr (xs ! i) else Inl IndexError)"

fun count_spikes_keys :: "spike_train \<Rightarrow> real \<Rightarrow> real \<Rightarrow> nat list \<Rightarrow> error + nat list" where
  "count_spikes_keys spike_train start stop [] = Inr []"
| "count_spikes_keys spike_train start stop (i # keys) =
     (case getitem spike_train i of
        Inl e \<Rightarrow> Inl e
      | Inr train \<Rightarrow>
          (case count_spikes_keys spike_train start stop keys of
             Inl e \<Rightarrow> Inl e
           | Inr counts \<Rightarrow>
               Inr (length (filter (\<lambda>val. stop > val \<and> val \<ge> start) train) # counts)))"

definition count_spikes :: "spike_train \<Rightarrow> real \<Rightarrow> real \<Rightarrow> error + nat list" where
  "count_spikes spike_train start stop =
     count_spikes_keys spike_train start stop (map fst spike_train)"

text \<open>
  \<open>get_class_spike_number\<close>: the inner loop over \<open>range(class_size)\<close> counts the
  neurons of one class with a positive spike count, the outer loop over
  \<open>range(class_amount)\<close> appends one number per class.
\<close>

fun class_spiking :: "nat list \<Rightarrow> nat \<Rightarrow> nat \<Rightarrow> nat list \<Rightarrow> nat \<Rightarrow> error + nat" where
  "class_spiking spikes class_size class_id [] spiking = Inr spiking"
| "class_spiking spikes class_size class_id (i # rest) spiking =
     (case list_getitem spikes (class_id * class_size + i) of
        Inl e \<Rightarrow> Inl e
      | Inr n \<Rightarrow>
          class_spiking spikes class_size class_id rest
            (if n > 0 then spiking + 1 else spiking))"

fun class_spike_numbers :: "nat list \<Rightarrow> nat \<Rightarrow> nat list \<Rightarrow> nat list \<Rightarrow> error + nat list" where
  "class_spike_numbers spikes class_size [] numbers = Inr numbers"
| "class_spike_numbers spikes class_size (class_id # rest) numbers =
     (case class_spiking spikes class_size class_id [0..<class_size] 0 of
        Inl e \<Rightarrow> Inl e
      | Inr spiking \<Rightarrow> class_spike_numbers spikes class_size rest (numbers @ [spiking]))"

definition get_class_spike_number :: "nat list \<Rightarrow> nat \<Rightarrow> nat \<Rightarrow> error + nat list" where
  "get_class_spike_number spikes class_size class_amount =
     class_spike_numbers spikes class_size [0..<class_amount] []"

text \<open>
  \<open>get_class_spike_ids\<close>: the inner loop splits the member ids of one class into the
  spiking and the non-spiking list, the outer loop collects the two lists per class.
\<close>

fun class_member_ids :: "nat list \<Rightarrow> nat \<Rightarrow> nat \<Rightarrow> nat list \<Rightarrow> nat list \<times> nat list \<Rightarrow> error + nat list \<times> nat list" where
  "class_member_ids spikes class_size class_id [] acc = Inr acc"
| "class_member_ids spikes class_size class_id (i # rest) (spiking, non_spiking) =
     (let member_id = class_id * class_size + i in
      case list_getitem spikes member_id of
        Inl e \<Rightarrow> Inl e
      | Inr n \<Rightarrow>
          class_member_ids spikes class_size class_id rest
            (if n > 0 then (spiking @ [member_id], non_spiking)
             else (spiking, non_spiking @ [member_id])))"

fun class_spike_ids :: "nat list \<Rightarrow> nat \<Rightarrow> nat list \<Rightarrow> nat list list \<times> nat list list \<Rightarrow> error + nat list list \<times> nat list list" where
  "class_spike_ids spikes class_size [] acc = Inr acc"
| "class_spike_ids spikes class_size (class_id # rest) (spiking, non_spiking) =
     (case class_member_ids spikes class_size class_id [0..<class_size] ([], []) of
        Inl e \<Rightarrow> Inl e
      | Inr (s, n) \<Rightarrow>
          class_spike_ids spikes class_size rest (spiking @ [s], non_spiking @ [n]))"

definition get_class_spike_ids :: "nat list \<Rightarrow> nat \<Rightarrow> nat \<Rightarrow> error + nat list list \<times> nat list list" where
  "get_class_spike_ids spikes class_size class_amount =
     class_spike_ids spikes class_size [0..<class_amount] ([], [])"

section \<open>parameters.py: the parameters of the trainer\<close>

text \<open>
  The parameters the trainer reads.  The functions below take them as a
  record, \<open>brawn_parameters\<close> holds the values of the file.
\<close>

record parameters =
  class_size :: nat
  class_amount :: nat
  cycle_time :: real
  train_time :: real
  dt :: real
  train_data_size :: nat
  test_data_size :: nat
  train_step :: nat
  active_threshold :: nat
  inactive_threshold :: nat
  T02 :: real
  T12 :: real
  progress_monitoring_active :: bool
  progress_monitoring_step :: nat
  websocket_logging_active :: bool

definition brawn_parameters :: parameters where
  "brawn_parameters =
     \<lparr>class_size = 5, class_amount = 10,
      cycle_time = 30 * ms, train_time = 2 * (30 * ms), dt = 0.1 * ms,
      train_data_size = 150, test_data_size = 15,
      train_step = 2, active_threshold = 2, inactive_threshold = 0,
      T02 = 15 * ms, T12 = 30 * ms + 15 * ms,
      progress_monitoring_active = True, progress_monitoring_step = 260,
      websocket_logging_active = False\<rparr>"

section \<open>models/synapses.py: ZengSTDPSynapses\<close>

text \<open>
  One synapse with the variables of \<open>equations\<close>, and \<open>I_m\<close>, the input current of its
  postsynaptic neuron.  Floating-point numbers are modelled as reals; \<open>int(b)\<close> of a
  comparison is \<open>of_bool b\<close>, \<open>clip\<close> is numpy's.
\<close>

record synapse =
  t_prs :: real
  t_pos :: real
  P :: real
  Q :: real
  w :: real
  val_pot :: real
  val_dep :: real
  applicable :: real
  I_m :: real

definition clip :: "real \<Rightarrow> real \<Rightarrow> real \<Rightarrow> real" where
  "clip a a_min a_max = min (max a a_min) a_max"

definition on_pre :: "real \<Rightarrow> synapse \<Rightarrow> synapse" where
  "on_pre t s =
     (let s1 = s\<lparr>I_m := I_m s + w s\<rparr>;
          s2 = s1\<lparr>t_prs := of_bool (t_prs s1 < 0 * ms) * t + of_bool (t_prs s1 \<ge> 0 * ms) * t_prs s1\<rparr>;
          s3 = s2\<lparr>P := P s2 * exp ((t_prs s2 - t) / tau_LTP) + ALTP\<rparr>;
          s4 = s3\<lparr>t_prs := t\<rparr>;
          s5 = s4\<lparr>applicable := of_bool (0 * ms \<le> t_pos s4 \<and> t_pos s4 < t)\<rparr>;
          s6 = s5\<lparr>val_dep := applicable s5 * aLTD * Q s5 * exp ((t_pos s5 - t) / tau_LTD)\<rparr>
      in s6\<lparr>w := clip (w s6 + val_dep s6) 0 w_max\<rparr>)"

definition on_post :: "real \<Rightarrow> synapse \<Rightarrow> synapse" where
  "on_post t s =
     (let s1 = s\<lparr>t_pos := of_bool (t_pos s < 0 * ms) * t + of_bool (t_pos s \<ge> 0 * ms) * t_pos s\<rparr>;
          s2 = s1\<lparr>Q := Q s1 * exp ((t_pos s1 - t) / tau_LTD) + ALTD\<rparr>;
          s3 = s2\<lparr>t_pos := t\<rparr>;
          s4 = s3\<lparr>applicable := of_bool (0 * ms \<le> t_prs s3 \<and> t_prs s3 < t)\<rparr>;
          s5 = s4\<lparr>val_pot := applicable s4 * aLTP * P s4 * exp ((t_prs s4 - t) / tau_LTP)\<rparr>
      in s5\<lparr>w := clip (w s5 + val_pot s5) 0 w_max\<rparr>)"

text \<open>
  \<open>__init__\<close>: the last-spike times start at the sentinel \<open>-1 ms\<close>, the weight at
  \<open>rand() * w_max\<close>, where \<open>r\<close> is the value \<open>rand()\<close> drew; brian2 starts every other
  variable at zero.
\<close>

definition init_synapse :: "real \<Rightarrow> synapse" where
  "init_synapse r =
     \<lparr>t_prs = - 1 * ms, t_pos = - 1 * ms, P = 0, Q = 0, w = r * w_max,
      val_pot = 0, val_dep = 0, applicable = 0, I_m = 0\<rparr>"

text \<open>A spike event reaching the synapse, and a finite sequence of them.\<close>

datatype spike = Pre real | Post real

fun on_spike :: "spike \<Rightarrow> synapse \<Rightarrow> synapse" where
  "on_spike (Pre t) s = on_pre t s"
| "on_spike (Post t) s = on_post t s"

definition run_spikes :: "spike list \<Rightarrow> synapse \<Rightarrow> synapse" where
  "run_spikes events s = fold on_spike events s"

section \<open>The simulation engine (brian2)\<close>

text \<open>
  The state of the network that brian2 evolves: the clock \<open>t\<close>, the spikes queued on
  the input group, the three marker arrays and \<open>t_rel\<close> of the output group, and the
  rest (membrane voltages, synapses) as an opaque value.  An \<open>IONetwork\<close> is this
  state together with the checkpoints stored under a name.
\<close>

record 'e network_state =
  sim_t :: real
  input_spikes :: "nat list \<times> real list"
  potentiate :: "nat list"
  depress :: "nat list"
  hold :: "nat list"
  t_rel :: "real list"
  dynamics :: 'e

record 'e io_network =
  live :: "'e network_state"
  stored :: "string \<Rightarrow> 'e network_state option"

text \<open>
  The external collaborators are parameters of the model: \<open>brian2_run\<close> is
  \<open>Network.run(duration)\<close>, which returns the next state and the spike trains a
  \<open>SpikeMonitor\<close> on the output records during the run; \<open>send_training_results\<close> is
  the websocket exchange of \<open>_send_training_results\<close> with its three outcomes.
\<close>

datatype ws_reply = Accepted | Rejected | ConnectionRefused

record 'e externals =
  brian2_run :: "'e network_state \<Rightarrow> real \<Rightarrow> 'e network_state \<times> spike_train"
  send_training_results :: "int \<Rightarrow> real \<Rightarrow> ws_reply"

definition set_spikes :: "nat list \<Rightarrow> real list \<Rightarrow> 'e network_state \<Rightarrow> 'e network_state" where
  \<comment> \<open>Modelled from the spec: brian2's \<open>SpikeGeneratorGroup.set_spikes\<close>, which is not part of the
      sources; section 6 (d), injecting an explicit list of (neuron-index, time) forced-spike events.\<close>
  "set_spikes indices times' s = s\<lparr>input_spikes := (indices, times')\<rparr>"

text \<open>
  \<open>times + self.simulator.t\<close> adds a brian2 quantity to a Python list of quantities.
  brian2's arithmetic, which is not part of the sources, adds elementwise; the empty
  list carries no unit of time, and the sum raises.  \<open>train\<close> checks for the empty
  encoding before it gets there, \<open>test_network\<close> does not.
\<close>

definition add_quantity :: "real list \<Rightarrow> real \<Rightarrow> error + real list" where
  \<comment> \<open>Modelled from the spec: brian2's arithmetic of quantities, which is not part of the
      sources; section 4.2, an empty encoding is an error condition for the caller.\<close>
  "add_quantity times' t =
     (if times' = [] then Inl DimensionMismatchError else Inr (map (\<lambda>x. x + t) times'))"

definition store :: "string \<Rightarrow> 'e io_network \<Rightarrow> 'e io_network" where
  \<comment> \<open>Modelled from the spec: brian2's \<open>Network.store\<close>, which is not part of the sources;
      section 6 (f), save of the full simulation state under a named checkpoint.\<close>
  "store name net = net\<lparr>stored := (stored net)(name \<mapsto> live net)\<rparr>"

definition restore :: "string \<Rightarrow> 'e io_network \<Rightarrow> error + 'e io_network" where
  \<comment> \<open>Modelled from the spec: brian2's \<open>Network.restore\<close>, which is not part of the sources;
      section 6 (f), restore of the full simulation state from a named checkpoint.\<close>
  "restore name net =
     (case stored net name of
        None \<Rightarrow> Inl KeyError
      | Some s \<Rightarrow> Inr (net\<lparr>live := s\<rparr>))"

section \<open>models/networks.py: IONetwork.run\<close>

text \<open>
  Every function with an effect returns its result, or the exception it raised,
  together with the state it leaves behind.
\<close>

definition run :: "'e externals \<Rightarrow> real \<Rightarrow> bool \<Rightarrow> 'e io_network \<Rightarrow> (error + nat list option) \<times> 'e io_network" where
  "run ext duration record_output_spikes net =
     (let sim_start = sim_t (live net) in
      case brian2_run ext (live net) duration of
        (live', trains) \<Rightarrow>
          (let net' = net\<lparr>live := live'\<rparr> in
           if record_output_spikes
           then (case count_spikes trains sim_start (sim_start + sim_t (live net')) of
                   Inl e \<Rightarrow> (Inl e, net')
                 | Inr counts \<Rightarrow> (Inr (Some counts), net'))
           else (Inr None, net')))"

section \<open>models/trainers.py: ZengTrainer\<close>

record image_sample =
  class' :: nat
  pixelmap :: "real list list"
  size' :: nat

record 'e zeng_trainer =
  train_set :: "image_sample list"
  test_set :: "image_sample list"
  simulator :: "'e io_network"
  progress_steps :: "int list"
  progress_values :: "real list"
  offline_mode :: bool

subsection \<open>test_network\<close>

record results =
  image' :: "nat list"
  success :: "bool list"
  rate :: real
  success_num :: nat

text \<open>
  The loop over \<open>enumerate(run_results)\<close>: \<open>best\<close> is the pair of \<open>best['class']\<close> and
  \<open>best['value']\<close>, which starts at \<open>-1\<close> and is therefore an integer.
\<close>

fun best_step :: "nat \<times> nat \<Rightarrow> (nat \<times> int) \<times> bool \<Rightarrow> (nat \<times> int) \<times> bool" where
  "best_step (i, v) (best, canceled) =
     (if int v = snd best then (best, True)
      else if int v > snd best then ((i, int v), False)
      else (best, canceled))"

definition find_best :: "nat list \<Rightarrow> (nat \<times> int) \<times> bool" where
  "find_best run_results = fold best_step (enumerate 0 run_results) ((0, - 1), False)"

text \<open>
  The first statements of the body of the loop over the test set: the image is encoded,
  its spikes are queued on the input at the current time, and one cycle is run with
  the output spikes recorded.  The sum \<open>times + self.simulator.t\<close> is evaluated before
  \<open>set_spikes\<close> is called.
\<close>

definition run_sample :: "parameters \<Rightarrow> 'e externals \<Rightarrow> image_sample \<Rightarrow> 'e io_network
    \<Rightarrow> (error + nat list) \<times> 'e io_network" where
  "run_sample p ext img net =
     (case image2spikes (pixelmap img) (0 * ms) of
        (indices, times') \<Rightarrow>
          (case add_quantity times' (sim_t (live net)) of
             Inl e \<Rightarrow> (Inl e, net)
           | Inr spike_times \<Rightarrow>
               (case run ext (cycle_time p) True
                       (net\<lparr>live := set_spikes indices spike_times (live net)\<rparr>) of
                  (Inl e, net2) \<Rightarrow> (Inl e, net2)
                | (Inr None, net2) \<Rightarrow> (Inl TypeError, net2)
                | (Inr (Some data), net2) \<Rightarrow> (Inr data, net2))))"

text \<open>
  The loop over the test set threads the results, the success counter, the lines
  \<open>logging.debug(run_results)\<close> writes and the network.
\<close>

fun test_loop :: "parameters \<Rightarrow> 'e externals \<Rightarrow> image_sample list
    \<Rightarrow> results \<times> nat \<times> nat list list \<times> 'e io_network
    \<Rightarrow> (error + results \<times> nat \<times> nat list list) \<times> 'e io_network" where
  "test_loop p ext [] (res, success_n, debug_log, net) = (Inr (res, success_n, debug_log), net)"
| "test_loop p ext (img # rest) (res, success_n, debug_log, net) =
     (case run_sample p ext img net of
        (Inl e, net2) \<Rightarrow> (Inl e, net2)
      | (Inr data, net2) \<Rightarrow>
          (case get_class_spike_number data (class_size p) (class_amount p) of
             Inl e \<Rightarrow> (Inl e, net2)
           | Inr run_results \<Rightarrow>
               (case find_best run_results of
                  (best, canceled) \<Rightarrow>
                    (let res1 = res\<lparr>image' := image' res @ [class' img]\<rparr> in
                     if fst best = class' img \<and> \<not> canceled
                     then test_loop p ext rest
                            (res1\<lparr>success := success res1 @ [True]\<rparr>,
                             success_n + 1, debug_log @ [run_results], net2)
                     else test_loop p ext rest
                            (res1\<lparr>success := success res1 @ [False]\<rparr>,
                             success_n, debug_log @ [run_results], net2)))))"

definition test_network :: "parameters \<Rightarrow> 'e externals \<Rightarrow> bool \<Rightarrow> 'e zeng_trainer
    \<Rightarrow> (error + results \<times> nat list list) \<times> 'e zeng_trainer" where
  "test_network p ext dry_run tr =
     (let net0 = (if dry_run then store ''dry_test'' (simulator tr) else simulator tr);
          res0 = \<lparr>image' = [], success = [], rate = 0, success_num = 0\<rparr>
      in case test_loop p ext (test_set tr) (res0, 0, [], net0) of
           (Inl e, net1) \<Rightarrow> (Inl e, tr\<lparr>simulator := net1\<rparr>)
         | (Inr (res, success_n, debug_log), net1) \<Rightarrow>
             if length (test_set tr) = 0
             then (Inl ZeroDivisionError, tr\<lparr>simulator := net1\<rparr>)
             else
               (let res1 = res\<lparr>rate := real success_n / real (length (test_set tr)) * 100\<rparr>;
                    res2 = res1\<lparr>success_num := success_n\<rparr>
                in if dry_run
                   then (case restore ''dry_test'' net1 of
                           Inl e \<Rightarrow> (Inl e, tr\<lparr>simulator := net1\<rparr>)
                         | Inr net2 \<Rightarrow> (Inr (res2, debug_log), tr\<lparr>simulator := net2\<rparr>))
                   else (Inr (res2, debug_log), tr\<lparr>simulator := net1\<rparr>)))"

subsection \<open>_set_markers\<close>

text \<open>
  The module \<open>random\<close> is a stream of draws \<open>rng\<close>: \<open>rng.choice(seq)\<close> raises
  \<open>IndexError\<close> on an empty sequence and otherwise returns \<open>seq[k]\<close> for the index
  \<open>k\<close> below \<open>len(seq)\<close> that the next draw selects.  \<open>list.remove\<close> deletes the first
  occurrence and raises \<open>ValueError\<close> when there is none; writing a marker of a neuron
  that the output group does not have raises \<open>IndexError\<close>.
\<close>

definition choice :: "nat list \<Rightarrow> nat \<Rightarrow> error + nat" where
  "choice seq r = (if seq = [] then Inl IndexError else Inr (seq ! (r mod length seq)))"

definition list_remove :: "nat list \<Rightarrow> nat \<Rightarrow> error + nat list" where
  "list_remove xs x = (if x \<in> set xs then Inr (remove1 x xs) else Inl ValueError)"

definition set_flag :: "nat list \<Rightarrow> nat \<Rightarrow> error + nat list" where
  "set_flag flags neuron =
     (if neuron < length flags then Inr (flags[neuron := 1]) else Inl IndexError)"

text \<open>
  The loop \<open>for _ in range(active_threshold - number_spikes)\<close> of the target class
  threads \<open>hold_list\<close>, \<open>non_spiking_neurons\<close>, the network state and the draws.
\<close>

fun potentiate_loop :: "nat \<Rightarrow> nat list \<times> nat list \<times> 'e network_state \<times> (nat \<Rightarrow> nat)
    \<Rightarrow> error option \<times> nat list \<times> nat list \<times> 'e network_state \<times> (nat \<Rightarrow> nat)" where
  "potentiate_loop 0 st = (None, st)"
| "potentiate_loop (Suc k) (hold_list, non_spiking_neurons, out, rng) =
     (case choice non_spiking_neurons (rng 0) of
        Inl e \<Rightarrow> (Some e, hold_list, non_spiking_neurons, out, rng)
      | Inr neuron \<Rightarrow>
          (case list_remove hold_list neuron of
             Inl e \<Rightarrow> (Some e, hold_list, non_spiking_neurons, out, rng \<circ> Suc)
           | Inr hold_list1 \<Rightarrow>
               (case list_remove non_spiking_neurons neuron of
                  Inl e \<Rightarrow> (Some e, hold_list1, non_spiking_neurons, out, rng \<circ> Suc)
                | Inr non_spiking1 \<Rightarrow>
                    (case set_flag (potentiate out) neuron of
                       Inl e \<Rightarrow> (Some e, hold_list1, non_spiking1, out, rng \<circ> Suc)
                     | Inr flags \<Rightarrow>
                         potentiate_loop k
                           (hold_list1, non_spiking1, out\<lparr>potentiate := flags\<rparr>, rng \<circ> Suc)))))"

text \<open>The loop \<open>for _ in range(number_spikes - inactive_threshold)\<close> of the other classes.\<close>

fun depress_loop :: "nat \<Rightarrow> nat list \<times> 'e network_state \<times> (nat \<Rightarrow> nat)
    \<Rightarrow> error option \<times> nat list \<times> 'e network_state \<times> (nat \<Rightarrow> nat)" where
  "depress_loop 0 st = (None, st)"
| "depress_loop (Suc k) (spiking_neurons, out, rng) =
     (case choice spiking_neurons (rng 0) of
        Inl e \<Rightarrow> (Some e, spiking_neurons, out, rng)
      | Inr neuron \<Rightarrow>
          (case list_remove spiking_neurons neuron of
             Inl e \<Rightarrow> (Some e, spiking_neurons, out, rng \<circ> Suc)
           | Inr spiking1 \<Rightarrow>
               (case set_flag (depress out) neuron of
                  Inl e \<Rightarrow> (Some e, spiking1, out, rng \<circ> Suc)
                | Inr flags \<Rightarrow>
                    depress_loop k (spiking1, out\<lparr>depress := flags\<rparr>, rng \<circ> Suc))))"

text \<open>The list \<open>a\<close> of the ids of one class, \<open>[class_id * class_size + n for n in range(class_size)]\<close>.\<close>

definition class_block :: "parameters \<Rightarrow> nat \<Rightarrow> nat list" where
  "class_block p class_id = map (\<lambda>n. class_id * class_size p + n) [0..<class_size p]"

text \<open>
  One round of the loop over \<open>range(class_amount)\<close>.  The two inner lists the round
  mutates belong to its own class and are read by no later round, so the lists of
  lists are passed unchanged.
\<close>

definition markers_step :: "parameters \<Rightarrow> nat \<Rightarrow> nat list list \<Rightarrow> nat list list \<Rightarrow> nat
    \<Rightarrow> nat list \<times> 'e network_state \<times> (nat \<Rightarrow> nat)
    \<Rightarrow> error option \<times> nat list \<times> 'e network_state \<times> (nat \<Rightarrow> nat)" where
  "markers_step p label spiking_classes non_spiking_classes class_id st =
     (case st of (hold_list, out, rng) \<Rightarrow>
        (case list_getitem spiking_classes class_id of
           Inl e \<Rightarrow> (Some e, st)
         | Inr spiking_neurons \<Rightarrow>
             (case list_getitem non_spiking_classes class_id of
                Inl e \<Rightarrow> (Some e, st)
              | Inr non_spiking_neurons \<Rightarrow>
                  (let number_spikes = length spiking_neurons in
                   if class_id = label
                   then
                     (let a = class_block p class_id;
                          hold_list1 = hold_list @ a
                      in if number_spikes < active_threshold p
                         then (case potentiate_loop (active_threshold p - number_spikes)
                                      (hold_list1, non_spiking_neurons, out, rng) of
                                 (err, hold_list2, non_spiking2, out2, rng2) \<Rightarrow>
                                   (err, hold_list2, out2, rng2))
                         else (None, hold_list1, out, rng))
                   else if number_spikes > inactive_threshold p
                   then (case depress_loop (number_spikes - inactive_threshold p)
                                (spiking_neurons, out, rng) of
                           (err, spiking2, out2, rng2) \<Rightarrow> (err, hold_list, out2, rng2))
                   else (None, hold_list, out, rng)))))"

fun markers_loop :: "parameters \<Rightarrow> nat \<Rightarrow> nat list list \<Rightarrow> nat list list \<Rightarrow> nat list
    \<Rightarrow> nat list \<times> 'e network_state \<times> (nat \<Rightarrow> nat)
    \<Rightarrow> error option \<times> nat list \<times> 'e network_state \<times> (nat \<Rightarrow> nat)" where
  "markers_loop p label spiking_classes non_spiking_classes [] st = (None, st)"
| "markers_loop p label spiking_classes non_spiking_classes (class_id # rest) st =
     (case markers_step p label spiking_classes non_spiking_classes class_id st of
        (Some e, st') \<Rightarrow> (Some e, st')
      | (None, st') \<Rightarrow> markers_loop p label spiking_classes non_spiking_classes rest st')"

text \<open>The final loop \<open>for neuron in hold_list\<close>.\<close>

fun hold_loop :: "nat list \<Rightarrow> 'e network_state \<Rightarrow> error option \<times> 'e network_state" where
  "hold_loop [] out = (None, out)"
| "hold_loop (neuron # rest) out =
     (case set_flag (hold out) neuron of
        Inl e \<Rightarrow> (Some e, out)
      | Inr flags \<Rightarrow> hold_loop rest (out\<lparr>hold := flags\<rparr>))"

definition set_markers :: "parameters \<Rightarrow> image_sample \<Rightarrow> nat list list \<Rightarrow> nat list list
    \<Rightarrow> 'e network_state \<times> (nat \<Rightarrow> nat)
    \<Rightarrow> error option \<times> 'e network_state \<times> (nat \<Rightarrow> nat)" where
  "set_markers p img spiking_classes non_spiking_classes st =
     (case st of (out, rng) \<Rightarrow>
        (case markers_loop p (class' img) spiking_classes non_spiking_classes
                [0..<class_amount p] ([], out, rng) of
           (Some e, hold_list, out1, rng1) \<Rightarrow> (Some e, out1, rng1)
         | (None, hold_list, out1, rng1) \<Rightarrow>
             (case hold_loop hold_list out1 of
                (err, out2) \<Rightarrow> (err, out2, rng1))))"

subsection \<open>_apply_training\<close>

fun teaching_runs :: "parameters \<Rightarrow> 'e externals \<Rightarrow> nat list \<Rightarrow> real list \<Rightarrow> nat
    \<Rightarrow> 'e io_network \<Rightarrow> error option \<times> 'e io_network" where
  "teaching_runs p ext indices training_times 0 net = (None, net)"
| "teaching_runs p ext indices training_times (Suc k) net =
     (let out1 = (live net)\<lparr>t_rel := map (\<lambda>x. - dt p) (t_rel (live net))\<rparr> in
      case add_quantity training_times (sim_t out1) of
        Inl e \<Rightarrow> (Some e, net\<lparr>live := out1\<rparr>)
      | Inr spike_times \<Rightarrow>
          (case run ext (train_time p) False
                  (net\<lparr>live := set_spikes (indices @ indices) spike_times out1\<rparr>) of
             (Inl e, net1) \<Rightarrow> (Some e, net1)
           | (Inr r, net1) \<Rightarrow> teaching_runs p ext indices training_times k net1))"

definition apply_training :: "parameters \<Rightarrow> 'e externals \<Rightarrow> nat list \<Rightarrow> 'e io_network
    \<Rightarrow> error option \<times> 'e io_network" where
  "apply_training p ext indices net =
     (let training_times = replicate (length indices) (T02 p) @ replicate (length indices) (T12 p)
      in case teaching_runs p ext indices training_times (train_step p) net of
           (Some e, net1) \<Rightarrow> (Some e, net1)
         | (None, net1) \<Rightarrow>
             (None, net1\<lparr>live := (live net1)
                      \<lparr>potentiate := map (\<lambda>x. 0) (potentiate (live net1)),
                       depress := map (\<lambda>x. 0) (depress (live net1)),
                       hold := map (\<lambda>x. 0) (hold (live net1))\<rparr>\<rparr>))"

subsection \<open>train\<close>

text \<open>The last block of \<open>train\<close>: the periodic evaluation and its report.\<close>

definition monitor_progress :: "parameters \<Rightarrow> 'e externals \<Rightarrow> 'e zeng_trainer
    \<Rightarrow> error option \<times> 'e zeng_trainer" where
  "monitor_progress p ext tr =
     (if \<not> progress_monitoring_active p then (None, tr)
      else if progress_monitoring_step p = 0 then (Some ZeroDivisionError, tr)
      else if length (train_set tr) mod progress_monitoring_step p = 0
      then (case test_network p ext True tr of
              (Inl e, tr1) \<Rightarrow> (Some e, tr1)
            | (Inr (test_results, debug_log), tr1) \<Rightarrow>
                (let step = int (train_data_size p) - int (length (train_set tr1));
                     tr2 = tr1\<lparr>progress_steps := progress_steps tr1 @ [step]\<rparr>;
                     tr3 = tr2\<lparr>progress_values := progress_values tr2 @ [rate test_results]\<rparr>
                 in if websocket_logging_active p \<and> \<not> offline_mode tr3
                    then (case send_training_results ext step (rate test_results) of
                            Accepted \<Rightarrow> (None, tr3)
                          | Rejected \<Rightarrow> (Some (TrainerError WebsocketRejected), tr3)
                          | ConnectionRefused \<Rightarrow> (None, tr3\<lparr>offline_mode := True\<rparr>))
                    else (None, tr3)))
      else (None, tr))"

definition train :: "parameters \<Rightarrow> 'e externals \<Rightarrow> 'e zeng_trainer \<times> (nat \<Rightarrow> nat)
    \<Rightarrow> error option \<times> 'e zeng_trainer \<times> (nat \<Rightarrow> nat)" where
  "train p ext st =
     (case st of (tr, rng) \<Rightarrow>
        (case train_set tr of
           [] \<Rightarrow> (Some IndexError, tr, rng)
         | img # remaining \<Rightarrow>
             (let tr1 = tr\<lparr>train_set := remaining\<rparr> in
              case image2spikes (pixelmap img) (0 * ms) of
                (indices, times') \<Rightarrow>
                  if length indices = 0
                  then (Some (TrainerError (EmptyPicture
                                (int (train_data_size p) - int (length (train_set tr1))))),
                        tr1, rng)
                  else
                    (let net = simulator tr1 in
                     case add_quantity times' (sim_t (live net)) of
                       Inl e \<Rightarrow> (Some e, tr1, rng)
                     | Inr spike_times \<Rightarrow>
                         case run ext (cycle_time p) True
                                (net\<lparr>live := set_spikes indices spike_times (live net)\<rparr>) of
                          (Inl e, net2) \<Rightarrow> (Some e, tr1\<lparr>simulator := net2\<rparr>, rng)
                        | (Inr None, net2) \<Rightarrow> (Some TypeError, tr1\<lparr>simulator := net2\<rparr>, rng)
                        | (Inr (Some data), net2) \<Rightarrow>
                            (case get_class_spike_ids data (class_size p) (class_amount p) of
                               Inl e \<Rightarrow> (Some e, tr1\<lparr>simulator := net2\<rparr>, rng)
                             | Inr (spiking_classes, non_spiking_classes) \<Rightarrow>
                                 (case set_markers p img spiking_classes non_spiking_classes
                                         (live net2, rng) of
                                    (Some e, out, rng1) \<Rightarrow>
                                      (Some e, tr1\<lparr>simulator := net2\<lparr>live := out\<rparr>\<rparr>, rng1)
                                  | (None, out, rng1) \<Rightarrow>
                                      (case apply_training p ext indices (net2\<lparr>live := out\<rparr>) of
                                         (Some e, net3) \<Rightarrow>
                                           (Some e, tr1\<lparr>simulator := net3\<rparr>, rng1)
                                       | (None, net3) \<Rightarrow>
                                           (case monitor_progress p ext (tr1\<lparr>simulator := net3\<rparr>) of
                                              (err, tr2) \<Rightarrow> (err, tr2, rng1)))))))))"

section \<open>Notions the properties are stated with\<close>

text \<open>
  What the callers and the engine guarantee, as predicates.  brian2's
  \<open>SpikeMonitor.spike_trains()\<close> returns a dictionary with one entry per neuron of the
  monitored group, and the trainer creates the output group with
  \<open>N = class_amount * class_size\<close> neurons.
\<close>

definition engine_contract :: "parameters \<Rightarrow> 'e externals \<Rightarrow> bool" where
  \<comment> \<open>Modelled from the spec: brian2's \<open>SpikeMonitor\<close>, which is not part of the sources;
      section 6 (e), recording the spike timestamps per neuron of the output population.\<close>
  "engine_contract p ext =
     (\<forall>s duration. distinct (map fst (snd (brian2_run ext s duration)))
        \<and> length (snd (brian2_run ext s duration)) = class_amount p * class_size p)"

text \<open>
  The network states at which \<open>test_network\<close> presents the samples of a list, one
  after the other: each sample is presented at the state its predecessor's run left.
\<close>

fun sample_states :: "parameters \<Rightarrow> 'e externals \<Rightarrow> image_sample list \<Rightarrow> 'e io_network
    \<Rightarrow> 'e io_network list" where
  "sample_states p ext [] net = []"
| "sample_states p ext (img # rest) net =
     net # sample_states p ext rest (snd (run_sample p ext img net))"

text \<open>
  The random selection.  \<open>rng.choice(seq)\<close> returns \<open>seq[i]\<close> for an index \<open>i\<close> below
  \<open>len(seq)\<close>; in the model the index is the next draw of the stream, reduced below
  the length.  \<open>draws k xs rng\<close> is the list of neurons that \<open>k\<close> successive calls, each
  followed by \<open>xs.remove(neuron)\<close>, select from \<open>xs\<close>, \<open>draw_indices\<close> the indices these
  calls draw, and \<open>picks\<close> the selection that a list of indices makes.
\<close>

fun draws :: "nat \<Rightarrow> nat list \<Rightarrow> (nat \<Rightarrow> nat) \<Rightarrow> nat list" where
  "draws 0 xs rng = []"
| "draws (Suc k) xs rng =
     (xs ! (rng 0 mod length xs)) # draws k (remove1 (xs ! (rng 0 mod length xs)) xs) (rng \<circ> Suc)"

fun draw_indices :: "nat \<Rightarrow> nat \<Rightarrow> (nat \<Rightarrow> nat) \<Rightarrow> nat list" where
  "draw_indices 0 n rng = []"
| "draw_indices (Suc k) n rng = (rng 0 mod n) # draw_indices k (n - 1) (rng \<circ> Suc)"

fun picks :: "nat list \<Rightarrow> nat list \<Rightarrow> nat list" where
  "picks [] xs = []"
| "picks (i # idx) xs = (xs ! i) # picks idx (remove1 (xs ! i) xs)"

text \<open>
  The outcomes of \<open>k\<close> calls of \<open>rng.choice\<close> on a list of \<open>n\<close> elements that shrinks by
  one after each call are the index sequences \<open>i\<^sub>1 < n\<close>, \<open>i\<^sub>2 < n - 1\<close>, ...; Python draws
  each index uniformly, so these sequences are equally likely.  \<open>selections xs k S\<close>
  are the outcomes that select the set \<open>S\<close>.
\<close>

fun valid_indices :: "nat \<Rightarrow> nat list \<Rightarrow> bool" where
  "valid_indices n [] = True"
| "valid_indices n (i # idx) = (i < n \<and> valid_indices (n - 1) idx)"

definition index_seqs :: "nat \<Rightarrow> nat \<Rightarrow> nat list set" where
  "index_seqs n k = {idx. length idx = k \<and> valid_indices n idx}"

definition selections :: "nat list \<Rightarrow> nat \<Rightarrow> nat set \<Rightarrow> nat list set" where
  "selections xs k S = {idx \<in> index_seqs (length xs) k. set (picks idx xs) = S}"

text \<open>
  The stream after \<open>m\<close> draws; the number of draws the round of a class makes, the
  list it draws from, and the number of draws of the rounds before class \<open>k\<close>.
\<close>

definition drop_draws :: "nat \<Rightarrow> (nat \<Rightarrow> nat) \<Rightarrow> nat \<Rightarrow> nat" where
  "drop_draws m rng = (\<lambda>i. rng (m + i))"

definition draw_count :: "parameters \<Rightarrow> nat \<Rightarrow> nat list list \<Rightarrow> nat \<Rightarrow> nat" where
  "draw_count p label spiking_classes class_id =
     (if class_id = label then active_threshold p - length (spiking_classes ! class_id)
      else length (spiking_classes ! class_id) - inactive_threshold p)"

definition draws_before :: "parameters \<Rightarrow> nat \<Rightarrow> nat list list \<Rightarrow> nat \<Rightarrow> nat" where
  "draws_before p label spiking_classes k =
     sum_list (map (draw_count p label spiking_classes) [0..<k])"

definition class_draws :: "parameters \<Rightarrow> nat \<Rightarrow> nat list list \<Rightarrow> nat list list \<Rightarrow> nat
    \<Rightarrow> (nat \<Rightarrow> nat) \<Rightarrow> nat list" where
  "class_draws p label spiking_classes non_spiking_classes class_id rng =
     draws (draw_count p label spiking_classes class_id)
       (if class_id = label then non_spiking_classes ! class_id else spiking_classes ! class_id)
       rng"

text \<open>
  The spiking and non-spiking lists of every class partition the ids of that class, as
  the lists \<open>get_class_spike_ids\<close> returns do.
\<close>

definition class_partition :: "parameters \<Rightarrow> nat list list \<Rightarrow> nat list list \<Rightarrow> bool" where
  "class_partition p spiking_classes non_spiking_classes =
     (length spiking_classes = class_amount p \<and> length non_spiking_classes = class_amount p
      \<and> (\<forall>k < class_amount p.
            distinct (spiking_classes ! k @ non_spiking_classes ! k)
            \<and> set (spiking_classes ! k @ non_spiking_classes ! k) = set (class_block p k)))"

text \<open>
  The three marker arrays have one entry per output neuron, all zero: the state
  brian2 creates and \<open>_apply_training\<close> leaves behind.
\<close>

definition flags_reset :: "parameters \<Rightarrow> 'e network_state \<Rightarrow> bool" where
  "flags_reset p out =
     (potentiate out = replicate (class_amount p * class_size p) 0
      \<and> depress out = replicate (class_amount p * class_size p) 0
      \<and> hold out = replicate (class_amount p * class_size p) 0)"

section \<open>Auxiliary notions of the proofs\<close>

text \<open>The invariant of the loop of \<open>find_best\<close> after the prefix \<open>rr\<close> of the counts.\<close>

definition best_inv :: "nat list \<Rightarrow> (nat \<times> int) \<times> bool \<Rightarrow> bool" where
  "best_inv rr st =
     (case st of ((c, v), canceled) \<Rightarrow>
        (rr = [] \<and> c = 0 \<and> v = - 1 \<and> \<not> canceled)
        \<or> (rr \<noteq> [] \<and> c < length rr \<and> v = int (rr ! c)
            \<and> (\<forall>j < length rr. rr ! j \<le> rr ! c)
            \<and> (canceled \<longleftrightarrow> (\<exists>j < length rr. j \<noteq> c \<and> rr ! j = rr ! c))))"

text \<open>The exceptions other than \<open>TrainerError\<close>.\<close>

definition not_trainer_error :: "error \<Rightarrow> bool" where
  "not_trainer_error e = (case e of TrainerError x \<Rightarrow> False | _ \<Rightarrow> True)"

text \<open>The marker array after writing 1 at a list of neurons.\<close>

definition set_flags :: "nat list \<Rightarrow> nat list \<Rightarrow> nat list" where
  "set_flags ns flags = fold (\<lambda>n f. f[n := 1]) ns flags"

definition flags_len :: "nat \<Rightarrow> 'e network_state \<Rightarrow> bool" where
  "flags_len N out =
     (length (potentiate out) = N \<and> length (depress out) = N \<and> length (hold out) = N)"

text \<open>The stream whose first draws are a given list of indices.\<close>

definition stream_of :: "nat list \<Rightarrow> nat \<Rightarrow> nat" where
  "stream_of idx j = (if j < length idx then idx ! j else 0)"

text \<open>
  The draws made before the round of class \<open>k\<close> in a loop over the classes \<open>cids\<close>, and
  the effect of that loop on \<open>hold_list\<close>, the markers and the stream.
\<close>

definition draws_until :: "parameters \<Rightarrow> nat \<Rightarrow> nat list list \<Rightarrow> nat list \<Rightarrow> nat \<Rightarrow> nat" where
  "draws_until p label sp cids k =
     sum_list (map (draw_count p label sp) (takeWhile (\<lambda>c. c \<noteq> k) cids))"

definition loop_effect :: "parameters \<Rightarrow> nat \<Rightarrow> nat list list \<Rightarrow> nat list list \<Rightarrow> nat list
    \<Rightarrow> nat list \<Rightarrow> 'e network_state \<Rightarrow> (nat \<Rightarrow> nat)
    \<Rightarrow> nat list \<Rightarrow> 'e network_state \<Rightarrow> (nat \<Rightarrow> nat) \<Rightarrow> bool" where
  "loop_effect p label sp nsp cids hl out rng hl' out' rng' =
     (flags_len (class_amount p * class_size p) out' \<and> hold out' = hold out
      \<and> rng' = drop_draws (sum_list (map (draw_count p label sp) cids)) rng
      \<and> potentiate out' =
          (if label \<in> set cids
           then set_flags (class_draws p label sp nsp label
                             (drop_draws (draws_until p label sp cids label) rng))
                  (potentiate out)
           else potentiate out)
      \<and> hl' =
          (if label \<in> set cids
           then fold remove1 (class_draws p label sp nsp label
                                (drop_draws (draws_until p label sp cids label) rng))
                  (hl @ class_block p label)
           else hl)
      \<and> (\<forall>n < class_amount p * class_size p.
            (\<forall>k \<in> set cids. k \<noteq> label \<longrightarrow> n \<notin> set (class_block p k))
            \<longrightarrow> depress out' ! n = depress out ! n)
      \<and> (\<forall>k \<in> set cids. k \<noteq> label \<longrightarrow>
            (\<forall>n \<in> set (class_block p k).
               depress out' ! n =
                 (if n \<in> set (class_draws p label sp nsp k
                                 (drop_draws (draws_until p label sp cids k) rng))
                  then 1 else depress out ! n))))"

section \<open>Example configurations\<close>

text \<open>
  A network of three output neurons, one per class: neuron 0 fires when input 0
  spikes, neuron 1 always fires, neuron 2 never does.  The first training image is
  blank (128 is not above the threshold).
\<close>

definition demo_parameters :: parameters where
  "demo_parameters = brawn_parameters\<lparr>class_size := 1, class_amount := 3\<rparr>"

definition demo_engine :: "unit externals" where
  "demo_engine =
     \<lparr>brian2_run = (\<lambda>s duration.
        (s\<lparr>sim_t := sim_t s + duration\<rparr>,
         [(0, if 0 \<in> set (fst (input_spikes s)) then [sim_t s] else []),
          (1, [sim_t s]),
          (2, [])])),
      send_training_results = (\<lambda>step v. Accepted)\<rparr>"

definition demo_network :: "unit io_network" where
  "demo_network =
     \<lparr>live = \<lparr>sim_t = 0, input_spikes = ([], []),
              potentiate = [0, 0, 0], depress = [0, 0, 0], hold = [0, 0, 0],
              t_rel = [0, 0, 0], dynamics = ()\<rparr>,
      stored = (\<lambda>name. None)\<rparr>"

definition demo_trainer :: "unit zeng_trainer" where
  "demo_trainer =
     \<lparr>train_set = [\<lparr>class' = 1, pixelmap = [[0, 0], [0, 128]], size' = 4\<rparr>,
                  \<lparr>class' = 0, pixelmap = [[200, 0], [0, 0]], size' = 4\<rparr>],
      test_set = [\<lparr>class' = 0, pixelmap = [[200, 0], [0, 0]], size' = 4\<rparr>,
                 \<lparr>class' = 1, pixelmap = [[0, 0], [0, 200]], size' = 4\<rparr>,
                 \<lparr>class' = 2, pixelmap = [[0, 0], [0, 200]], size' = 4\<rparr>],
      simulator = demo_network,
      progress_steps = [], progress_values = [], offline_mode = False\<rparr>"

text \<open>The same trainer with a test set whose second image is blank.\<close>

definition blank_test_trainer :: "unit zeng_trainer" where
  "blank_test_trainer =
     demo_trainer\<lparr>test_set := [\<lparr>class' = 0, pixelmap = [[200, 0], [0, 0]], size' = 4\<rparr>,
                               \<lparr>class' = 1, pixelmap = [[0, 0], [0, 0]], size' = 4\<rparr>]\<rparr>"

text \<open>Two classes of three neurons for the marker assignment.\<close>

definition marker_parameters :: parameters where
  "marker_parameters = brawn_parameters\<lparr>class_size := 3, class_amount := 2\<rparr>"

definition marker_state :: "unit network_state" where
  "marker_state =
     \<lparr>sim_t = 0, input_spikes = ([], []),
      potentiate = [0, 0, 0, 0, 0, 0], depress = [0, 0, 0, 0, 0, 0], hold = [0, 0, 0, 0, 0, 0],
      t_rel = [0, 0, 0, 0, 0, 0], dynamics = ()\<rparr>"

definition marker_image :: image_sample where
  "marker_image = \<lparr>class' = 0, pixelmap = [[200, 0], [0, 0]], size' = 4\<rparr>"

section \<open>Properties of the plasticity rule\<close>

lemma w_max_nonneg: "0 \<le> w_max"
  by (simp add: w_max_def)

lemma clip_in_range: "0 \<le> clip a 0 w_max \<and> clip a 0 w_max \<le> w_max"
  using w_max_nonneg by (simp add: clip_def)

lemma clip_id: "0 \<le> a \<Longrightarrow> a \<le> w_max \<Longrightarrow> clip a 0 w_max = a"
  by (simp add: clip_def)

lemma on_pre_fields:
  "I_m (on_pre t s) = I_m s + w s"
  "P (on_pre t s) = P s * exp ((if t_prs s < 0 then 0 else t_prs s - t) / tau_LTP) + ALTP"
  "t_prs (on_pre t s) = t"
  "w (on_pre t s) =
     (if 0 \<le> t_pos s \<and> t_pos s < t
      then clip (w s + aLTD * Q s * exp ((t_pos s - t) / tau_LTD)) 0 w_max
      else clip (w s) 0 w_max)"
  "Q (on_pre t s) = Q s"
  "t_pos (on_pre t s) = t_pos s"
  by (simp_all add: on_pre_def Let_def)

lemma on_post_fields:
  "Q (on_post t s) = Q s * exp ((if t_pos s < 0 then 0 else t_pos s - t) / tau_LTD) + ALTD"
  "t_pos (on_post t s) = t"
  "w (on_post t s) =
     (if 0 \<le> t_prs s \<and> t_prs s < t
      then clip (w s + aLTP * P s * exp ((t_prs s - t) / tau_LTP)) 0 w_max
      else clip (w s) 0 w_max)"
  "P (on_post t s) = P s"
  "t_prs (on_post t s) = t_prs s"
  "I_m (on_post t s) = I_m s"
  by (simp_all add: on_post_def Let_def)

lemma w_on_spike_range: "0 \<le> w (on_spike e s) \<and> w (on_spike e s) \<le> w_max"
  by (cases e) (simp_all add: on_pre_def on_post_def Let_def clip_in_range)

lemma run_spikes_snoc: "run_spikes (es @ [e]) s = on_spike e (run_spikes es s)"
  by (simp add: run_spikes_def)

lemma w_run_spikes_range:
  assumes "0 \<le> w s" "w s \<le> w_max"
  shows "0 \<le> w (run_spikes es s) \<and> w (run_spikes es s) \<le> w_max"
proof (cases es rule: rev_cases)
  case Nil
  with assms show ?thesis by (simp add: run_spikes_def)
next
  case (snoc es' e)
  then show ?thesis by (simp only: run_spikes_snoc w_on_spike_range)
qed

lemma w_init_range:
  assumes "0 \<le> r" "r < 1"
  shows "0 \<le> w (init_synapse r) \<and> w (init_synapse r) \<le> w_max"
proof -
  have "r * w_max \<le> 1 * w_max"
    using assms w_max_nonneg by (intro mult_right_mono) simp_all
  then show ?thesis using assms w_max_nonneg by (simp add: init_synapse_def)
qed

text \<open>
  Claim C1.  On a presynaptic spike at time \<open>t\<close> the rule adds \<open>w\<close> to the input current of
  the postsynaptic neuron, decays \<open>P\<close> by \<open>exp((t_prs - t)/tau_LTP)\<close>, with an elapsed
  time of zero while \<open>t_prs\<close> is the negative sentinel, adds \<open>ALTP\<close> and sets
  \<open>t_prs = t\<close>.  The weight becomes \<open>clip(w + aLTD * Q * exp((t_pos - t)/tau_LTD), 0, w_max)\<close>
  exactly when \<open>0 \<le> t_pos < t\<close>; otherwise nothing is added, the weight is only
  clipped, and a weight in \<open>[0, w_max]\<close> stays as it is.  A postsynaptic spike does the
  same with \<open>Q\<close>, \<open>ALTD\<close>, \<open>t_pos\<close> and the potentiation \<open>aLTP * P * exp((t_prs - t)/tau_LTP)\<close>,
  applied exactly when \<open>0 \<le> t_prs < t\<close>.
\<close>

theorem zeng_stdp_update:
  "I_m (on_pre t s) = I_m s + w s
   \<and> P (on_pre t s) = P s * exp ((if t_prs s < 0 then 0 else t_prs s - t) / tau_LTP) + ALTP
   \<and> t_prs (on_pre t s) = t
   \<and> (0 \<le> t_pos s \<and> t_pos s < t \<longrightarrow>
        w (on_pre t s) = clip (w s + aLTD * Q s * exp ((t_pos s - t) / tau_LTD)) 0 w_max)
   \<and> (\<not> (0 \<le> t_pos s \<and> t_pos s < t) \<longrightarrow>
        w (on_pre t s) = clip (w s) 0 w_max
        \<and> (0 \<le> w s \<and> w s \<le> w_max \<longrightarrow> w (on_pre t s) = w s))
   \<and> Q (on_pre t s) = Q s \<and> t_pos (on_pre t s) = t_pos s
   \<and> Q (on_post t s) = Q s * exp ((if t_pos s < 0 then 0 else t_pos s - t) / tau_LTD) + ALTD
   \<and> t_pos (on_post t s) = t
   \<and> (0 \<le> t_prs s \<and> t_prs s < t \<longrightarrow>
        w (on_post t s) = clip (w s + aLTP * P s * exp ((t_prs s - t) / tau_LTP)) 0 w_max)
   \<and> (\<not> (0 \<le> t_prs s \<and> t_prs s < t) \<longrightarrow>
        w (on_post t s) = clip (w s) 0 w_max
        \<and> (0 \<le> w s \<and> w s \<le> w_max \<longrightarrow> w (on_post t s) = w s))
   \<and> P (on_post t s) = P s \<and> t_prs (on_post t s) = t_prs s \<and> I_m (on_post t s) = I_m s"
  by (simp add: on_pre_fields on_post_fields clip_id)

theorem zeng_stdp_update_witness:
  "0 \<le> t_pos ((init_synapse (1 / 2))\<lparr>t_pos := 10 * ms, Q := - 1\<rparr>)
   \<and> t_pos ((init_synapse (1 / 2))\<lparr>t_pos := 10 * ms, Q := - 1\<rparr>) < 15 * ms
   \<and> w (on_pre (15 * ms) ((init_synapse (1 / 2))\<lparr>t_pos := 10 * ms, Q := - 1\<rparr>))
       = clip (1 / 2 * w_max + aLTD * (- 1) * exp ((10 * ms - 15 * ms) / tau_LTD)) 0 w_max
   \<and> \<not> (0 \<le> t_pos (init_synapse (1 / 2)) \<and> t_pos (init_synapse (1 / 2)) < 15 * ms)
   \<and> w (on_pre (15 * ms) (init_synapse (1 / 2))) = 1 / 2 * w_max
   \<and> 0 \<le> t_prs ((init_synapse (1 / 2))\<lparr>t_prs := 10 * ms, P := 1\<rparr>)
   \<and> t_prs ((init_synapse (1 / 2))\<lparr>t_prs := 10 * ms, P := 1\<rparr>) < 15 * ms
   \<and> w (on_post (15 * ms) ((init_synapse (1 / 2))\<lparr>t_prs := 10 * ms, P := 1\<rparr>))
       = clip (1 / 2 * w_max + aLTP * 1 * exp ((10 * ms - 15 * ms) / tau_LTP)) 0 w_max
   \<and> \<not> (0 \<le> t_prs (init_synapse (1 / 2)) \<and> t_prs (init_synapse (1 / 2)) < 15 * ms)
   \<and> w (on_post (15 * ms) (init_synapse (1 / 2))) = 1 / 2 * w_max"
  using zeng_stdp_update [of "15 * ms" "(init_synapse (1 / 2))\<lparr>t_pos := 10 * ms, Q := - 1\<rparr>"]
    zeng_stdp_update [of "15 * ms" "init_synapse (1 / 2)"]
    zeng_stdp_update [of "15 * ms" "(init_synapse (1 / 2))\<lparr>t_prs := 10 * ms, P := 1\<rparr>"]
  by (simp add: init_synapse_def ms_def w_max_def)

text \<open>
  Claim C2.  A weight that starts in \<open>[0, w_max]\<close>, as the initial weight
  \<open>rand() * w_max\<close> does for a draw \<open>0 \<le> r < 1\<close>, is in \<open>[0, w_max]\<close> after every single
  update of every finite sequence of presynaptic and postsynaptic spikes: after each
  prefix of the sequence, \<open>0 \<le> w \<le> w_max\<close>.
\<close>

theorem weight_invariant:
  "(0 \<le> w s \<and> w s \<le> w_max \<longrightarrow>
      (\<forall>k \<le> length events.
         0 \<le> w (run_spikes (take k events) s) \<and> w (run_spikes (take k events) s) \<le> w_max))
   \<and> (0 \<le> r \<and> r < 1 \<longrightarrow> 0 \<le> w (init_synapse r) \<and> w (init_synapse r) \<le> w_max)"
  using w_run_spikes_range w_init_range by blast

theorem weight_invariant_witness:
  "0 \<le> (1 / 2 :: real) \<and> (1 / 2 :: real) < 1
   \<and> 0 \<le> w (init_synapse (1 / 2)) \<and> w (init_synapse (1 / 2)) \<le> w_max
   \<and> 0 \<le> w (run_spikes [Pre (15 * ms), Post (20 * ms)] (init_synapse (1 / 2)))
   \<and> w (run_spikes [Pre (15 * ms), Post (20 * ms)] (init_synapse (1 / 2))) \<le> w_max"
proof -
  have r: "0 \<le> (1 / 2 :: real) \<and> (1 / 2 :: real) < 1" by simp
  have init: "0 \<le> w (init_synapse (1 / 2)) \<and> w (init_synapse (1 / 2)) \<le> w_max"
    using r weight_invariant [of "init_synapse (1 / 2)" "[]" "1 / 2"] by blast
  have "\<forall>k \<le> length [Pre (15 * ms), Post (20 * ms)].
          0 \<le> w (run_spikes (take k [Pre (15 * ms), Post (20 * ms)]) (init_synapse (1 / 2)))
          \<and> w (run_spikes (take k [Pre (15 * ms), Post (20 * ms)]) (init_synapse (1 / 2))) \<le> w_max"
    using init weight_invariant [of "init_synapse (1 / 2)" "[Pre (15 * ms), Post (20 * ms)]" "1 / 2"]
    by blast
  from this [rule_format, of 2] have "0 \<le> w (run_spikes [Pre (15 * ms), Post (20 * ms)] (init_synapse (1 / 2)))
   \<and> w (run_spikes [Pre (15 * ms), Post (20 * ms)] (init_synapse (1 / 2))) \<le> w_max"
    by simp
  with r init show ?thesis by blast
qed

section \<open>Properties of the stimulus encoder\<close>

lemma scan_line_enumerate:
  "scan_line line st (ind, tms, p) =
     (ind @ map fst (filter (\<lambda>(i, px). px > 128) (enumerate p line)),
      tms @ replicate (length (filter (\<lambda>(i, px). px > 128) (enumerate p line))) st,
      p + length line)"
proof (induction line arbitrary: ind tms p)
  case Nil
  show ?case by simp
next
  case (Cons px line)
  show ?case
    by (simp add: Cons.IH replicate_append_same)
qed

lemma scan_map_enumerate:
  "scan_map pm st (ind, tms, p) =
     (ind @ map fst (filter (\<lambda>(i, px). px > 128) (enumerate p (concat pm))),
      tms @ replicate (length (filter (\<lambda>(i, px). px > 128) (enumerate p (concat pm)))) st,
      p + length (concat pm))"
proof (induction pm arbitrary: ind tms p)
  case Nil
  show ?case by simp
next
  case (Cons line pm)
  show ?case
    by (simp add: scan_line_enumerate Cons.IH enumerate_append_eq replicate_add add.assoc)
qed

lemma enumerate_filter_nth:
  "map fst (filter (\<lambda>(i, x). G x) (enumerate 0 xs)) = filter (\<lambda>i. G (xs ! i)) [0..<length xs]"
proof (induction xs rule: rev_induct)
  case Nil
  show ?case by simp
next
  case (snoc x xs)
  have "filter (\<lambda>i. G ((xs @ [x]) ! i)) [0..<length xs] = filter (\<lambda>i. G (xs ! i)) [0..<length xs]"
    by (rule filter_cong) (simp_all add: nth_append)
  then show ?case
    using snoc.IH by (simp add: enumerate_append_eq)
qed

lemma image2spikes_scan:
  "image2spikes pm st =
     (filter (\<lambda>i. concat pm ! i > 128) [0..<length (concat pm)],
      replicate (length (filter (\<lambda>i. concat pm ! i > 128) [0..<length (concat pm)])) st)"
proof -
  have "length (filter (\<lambda>(i, px). px > 128) (enumerate 0 (concat pm)))
        = length (map fst (filter (\<lambda>(i, px). px > 128) (enumerate 0 (concat pm))))"
    by simp
  then show ?thesis
    unfolding image2spikes_def scan_map_enumerate
    by (simp only: enumerate_filter_nth prod.case append_Nil)
qed

lemma image2spikes_all_zero:
  assumes "\<forall>line \<in> set pm. \<forall>px \<in> set line. px = 0"
  shows "image2spikes pm st = ([], [])"
proof -
  have "\<forall>i < length (concat pm). \<not> concat pm ! i > 128"
  proof (intro allI impI)
    fix i assume "i < length (concat pm)"
    then have "concat pm ! i \<in> set (concat pm)" by (rule nth_mem)
    with assms have "concat pm ! i = 0" by auto
    then show "\<not> concat pm ! i > 128" by simp
  qed
  then have "filter (\<lambda>i. concat pm ! i > 128) [0..<length (concat pm)] = []"
    by (simp add: filter_empty_conv)
  then show ?thesis by (simp add: image2spikes_scan)
qed

lemma image2spikes_all_255:
  assumes "\<forall>line \<in> set pm. \<forall>px \<in> set line. px = 255"
  shows "image2spikes pm st = ([0..<length (concat pm)], replicate (length (concat pm)) st)"
proof -
  have "\<forall>i \<in> set [0..<length (concat pm)]. concat pm ! i > 128"
  proof
    fix i assume "i \<in> set [0..<length (concat pm)]"
    then have "i < length (concat pm)" by simp
    then have "concat pm ! i \<in> set (concat pm)" by (rule nth_mem)
    with assms have "concat pm ! i = 255" by auto
    then show "concat pm ! i > 128" by simp
  qed
  then have "filter (\<lambda>i. concat pm ! i > 128) [0..<length (concat pm)] = [0..<length (concat pm)]"
    by (simp only: filter_True)
  then show ?thesis by (simp add: image2spikes_scan)
qed

lemma image2spikes_example:
  "image2spikes [[0, 0, 0], [0, 200, 0], [0, 0, 0]] st = ([4], [st])"
  by (simp add: image2spikes_def)

text \<open>
  Claim C8.  \<open>image2spikes\<close> scans the grid row by row and emits, in scan order, the
  positions of exactly the pixels strictly greater than 128, each with the time
  \<open>spike_time\<close>; a pixel equal to 128 emits nothing.  An all-zero grid gives two empty
  lists, an all-255 grid of \<open>N\<close> pixels the indices \<open>0..N-1\<close> once each with \<open>N\<close> times
  \<open>spike_time\<close>, and the grid \<open>[[0,0,0],[0,200,0],[0,0,0]]\<close> gives \<open>[4]\<close> and \<open>[spike_time]\<close>.
\<close>

theorem image2spikes_encoding:
  "image2spikes pixel_map spike_time =
     (filter (\<lambda>i. concat pixel_map ! i > 128) [0..<length (concat pixel_map)],
      replicate (length (filter (\<lambda>i. concat pixel_map ! i > 128) [0..<length (concat pixel_map)]))
        spike_time)
   \<and> ((\<forall>line \<in> set pixel_map. \<forall>pixel \<in> set line. pixel = 0) \<longrightarrow>
        image2spikes pixel_map spike_time = ([], []))
   \<and> ((\<forall>line \<in> set pixel_map. \<forall>pixel \<in> set line. pixel = 255) \<longrightarrow>
        image2spikes pixel_map spike_time =
          ([0..<length (concat pixel_map)], replicate (length (concat pixel_map)) spike_time))
   \<and> image2spikes [[0, 0, 0], [0, 200, 0], [0, 0, 0]] spike_time = ([4], [spike_time])
   \<and> image2spikes [[128, 129]] spike_time = ([1], [spike_time])"
  using image2spikes_scan [of pixel_map spike_time]
    image2spikes_all_zero [of pixel_map spike_time]
    image2spikes_all_255 [of pixel_map spike_time]
    image2spikes_example [of spike_time]
  by (simp add: image2spikes_def)

theorem image2spikes_encoding_witness:
  "image2spikes [[0, 0], [0, 0]] (5 * ms) = ([], [])
   \<and> image2spikes [[255, 255], [255, 255]] (5 * ms)
       = ([0, 1, 2, 3], [5 * ms, 5 * ms, 5 * ms, 5 * ms])"
  using image2spikes_encoding [of "[[0, 0], [0, 0]]" "5 * ms"]
    image2spikes_encoding [of "[[255, 255], [255, 255]]" "5 * ms"]
  by (simp add: upt_rec numeral_eq_Suc)

section \<open>Properties of the spike analyzer\<close>

lemma count_spikes_keys_total:
  assumes "\<forall>k \<in> set ks. \<exists>train. map_of d k = Some train"
  shows "count_spikes_keys d start stop ks =
           Inr (map (\<lambda>k. length (filter (\<lambda>val. start \<le> val \<and> val < stop) (the (map_of d k)))) ks)"
  using assms
proof (induction ks)
  case Nil
  show ?case by simp
next
  case (Cons k ks)
  from Cons.prems obtain train where "map_of d k = Some train" by auto
  moreover have "(\<lambda>val. val < stop \<and> start \<le> val) = (\<lambda>val. start \<le> val \<and> val < stop)"
    by auto
  ultimately show ?case
    using Cons by (simp add: getitem_def)
qed

lemma count_spikes_map:
  assumes "distinct (map fst d)"
  shows "count_spikes d start stop =
           Inr (map (\<lambda>(i, train). length (filter (\<lambda>val. start \<le> val \<and> val < stop) train)) d)"
proof -
  have keys: "\<forall>k \<in> set (map fst d). \<exists>train. map_of d k = Some train"
    using assms by (auto simp: map_of_eq_Some_iff)
  have "map (\<lambda>k. length (filter (\<lambda>val. start \<le> val \<and> val < stop) (the (map_of d k)))) (map fst d)
        = map (\<lambda>(i, train). length (filter (\<lambda>val. start \<le> val \<and> val < stop) train)) d"
    using assms by (auto simp: map_of_eq_Some_iff)
  then show ?thesis
    unfolding count_spikes_def by (simp only: count_spikes_keys_total [OF keys])
qed

lemma sum_list_window_counts:
  "sum_list (map (\<lambda>(i, train). length (filter G train)) d) = length (filter G (concat (map snd d)))"
  by (induction d) auto

text \<open>
  Claim C9.  On a spike-train dictionary \<open>count_spikes\<close> returns one count per neuron,
  in the order of the dictionary, each the number of the neuron's timestamps \<open>t\<close> with
  \<open>start \<le> t < end\<close>; the counts add up to the number of in-window timestamps of all
  neurons, and every count is 0 when \<open>start = end\<close>.
\<close>

theorem count_spikes_window:
  assumes "distinct (map fst d)"
  shows "\<exists>counts. count_spikes d start stop = Inr counts
           \<and> length counts = length d
           \<and> (\<forall>j < length d. counts ! j = length (filter (\<lambda>val. start \<le> val \<and> val < stop) (snd (d ! j))))
           \<and> sum_list counts = length (filter (\<lambda>val. start \<le> val \<and> val < stop) (concat (map snd d)))
           \<and> (start = stop \<longrightarrow> (\<forall>c \<in> set counts. c = 0))"
proof -
  let ?G = "\<lambda>val. start \<le> val \<and> val < stop"
  let ?counts = "map (\<lambda>(i, train). length (filter ?G train)) d"
  have 1: "count_spikes d start stop = Inr ?counts"
    using assms by (rule count_spikes_map)
  have 2: "length ?counts = length d" by simp
  have 3: "\<forall>j < length d. ?counts ! j = length (filter ?G (snd (d ! j)))"
    by (simp add: case_prod_beta)
  have 4: "sum_list ?counts = length (filter ?G (concat (map snd d)))"
    by (rule sum_list_window_counts)
  have 5: "start = stop \<longrightarrow> (\<forall>c \<in> set ?counts. c = 0)"
    by auto
  from 1 2 3 4 5 show ?thesis by blast
qed

theorem count_spikes_window_witness:
  "distinct (map fst [(0::nat, [1, 2, 5::real]), (1, []), (2, [2, 3])])
   \<and> (\<exists>counts. count_spikes [(0, [1, 2, 5]), (1, []), (2, [2, 3])] 2 5 = Inr counts
          \<and> length counts = 3 \<and> sum_list counts = 3)"
  using count_spikes_window [of "[(0, [1, 2, 5]), (1, []), (2, [2, 3])]" 2 5]
  by auto

section \<open>Properties of the test loop\<close>

lemma best_inv_step:
  assumes "best_inv xs st"
  shows "best_inv (xs @ [x]) (best_step (length xs, x) st)"
proof -
  obtain c v canceled where st: "st = ((c, v), canceled)"
    by (metis prod.collapse)
  show ?thesis
  proof (cases "xs = []")
    case True
    with assms st show ?thesis by (simp add: best_inv_def)
  next
    case False
    with assms st have c: "c < length xs" and v: "v = int (xs ! c)"
      and mx: "\<forall>j < length xs. xs ! j \<le> xs ! c"
      and cn: "canceled \<longleftrightarrow> (\<exists>j < length xs. j \<noteq> c \<and> xs ! j = xs ! c)"
      by (simp_all add: best_inv_def)
    consider (eq) "x = xs ! c" | (gt) "x > xs ! c" | (lt) "x < xs ! c"
      by linarith
    then show ?thesis
    proof cases
      case eq
      then have "best_step (length xs, x) st = ((c, v), True)"
        using st v by simp
      moreover have "\<exists>j < length (xs @ [x]). j \<noteq> c \<and> (xs @ [x]) ! j = (xs @ [x]) ! c"
        using c eq by (intro exI [of _ "length xs"]) (simp add: nth_append)
      moreover have "\<forall>j < length (xs @ [x]). (xs @ [x]) ! j \<le> (xs @ [x]) ! c"
        using c mx eq by (auto simp: nth_append less_Suc_eq)
      ultimately show ?thesis
        using c v by (simp add: best_inv_def nth_append)
    next
      case gt
      then have "best_step (length xs, x) st = ((length xs, int x), False)"
        using st v by simp
      moreover have "\<forall>j < length (xs @ [x]). (xs @ [x]) ! j \<le> x"
        using c mx gt by (auto simp: nth_append less_Suc_eq intro: order_trans less_imp_le)
      moreover have "\<not> (\<exists>j < length (xs @ [x]). j \<noteq> length xs \<and> (xs @ [x]) ! j = x)"
        using c mx gt by (auto simp: nth_append less_Suc_eq)
      ultimately show ?thesis
        by (simp add: best_inv_def)
    next
      case lt
      then have "best_step (length xs, x) st = ((c, v), canceled)"
        using st v by simp
      moreover have "\<forall>j < length (xs @ [x]). (xs @ [x]) ! j \<le> (xs @ [x]) ! c"
        using c mx lt by (auto simp: nth_append less_Suc_eq)
      moreover have "(\<exists>j < length (xs @ [x]). j \<noteq> c \<and> (xs @ [x]) ! j = (xs @ [x]) ! c)
                     \<longleftrightarrow> (\<exists>j < length xs. j \<noteq> c \<and> xs ! j = xs ! c)"
        using c lt by (auto simp: nth_append less_Suc_eq)
      ultimately show ?thesis
        using c v cn by (simp add: best_inv_def nth_append)
    qed
  qed
qed

lemma best_inv_fold:
  "best_inv rr (fold best_step (enumerate 0 rr) ((0, - 1), False))"
proof (induction rr rule: rev_induct)
  case Nil
  show ?case by (simp add: best_inv_def)
next
  case (snoc x xs)
  then show ?case
    by (simp add: enumerate_append_eq best_inv_step)
qed

lemma find_best_unique_max:
  assumes "rr \<noteq> []"
  shows "(fst (fst (find_best rr)) = label \<and> \<not> snd (find_best rr))
         \<longleftrightarrow> (label < length rr \<and> (\<forall>j < length rr. j \<noteq> label \<longrightarrow> rr ! j < rr ! label))"
proof -
  obtain c v canceled where fb: "find_best rr = ((c, v), canceled)"
    by (metis prod.collapse)
  have "best_inv rr ((c, v), canceled)"
    using best_inv_fold [of rr] fb by (simp add: find_best_def)
  with assms have c: "c < length rr"
    and mx: "\<forall>j < length rr. rr ! j \<le> rr ! c"
    and cn: "canceled \<longleftrightarrow> (\<exists>j < length rr. j \<noteq> c \<and> rr ! j = rr ! c)"
    by (simp_all add: best_inv_def)
  show ?thesis
  proof
    assume "fst (fst (find_best rr)) = label \<and> \<not> snd (find_best rr)"
    with fb have "c = label" "\<not> canceled" by simp_all
    with c mx cn show "label < length rr \<and> (\<forall>j < length rr. j \<noteq> label \<longrightarrow> rr ! j < rr ! label)"
      by (auto simp: le_less)
  next
    assume r: "label < length rr \<and> (\<forall>j < length rr. j \<noteq> label \<longrightarrow> rr ! j < rr ! label)"
    have "c = label"
    proof (rule ccontr)
      assume "c \<noteq> label"
      with r c have "rr ! c < rr ! label" by simp
      moreover from r mx have "rr ! label \<le> rr ! c" by simp
      ultimately show False by simp
    qed
    moreover have "\<not> canceled"
      using cn r \<open>c = label\<close> by auto
    ultimately show "fst (fst (find_best rr)) = label \<and> \<not> snd (find_best rr)"
      using fb by simp
  qed
qed

lemma run_stored: "run ext d b net = (r, net') \<Longrightarrow> stored net' = stored net"
  by (auto simp: run_def Let_def split: prod.splits if_splits sum.splits)

lemma run_record_total:
  assumes "engine_contract p ext"
  shows "\<exists>counts net'. run ext d True net = (Inr (Some counts), net')
           \<and> length counts = class_amount p * class_size p"
proof -
  obtain s' trains where br: "brian2_run ext (live net) d = (s', trains)"
    by (metis prod.collapse)
  with assms have dist: "distinct (map fst trains)"
    and len: "length trains = class_amount p * class_size p"
    unfolding engine_contract_def by (metis snd_conv)+
  show ?thesis
    using br len by (simp add: run_def Let_def count_spikes_map [OF dist])
qed

lemma run_sample_stored:
  "run_sample p ext img net = (r, net') \<Longrightarrow> stored net' = stored net"
  by (auto simp: run_sample_def add_quantity_def
      split: prod.splits sum.splits option.splits if_splits dest!: run_stored)

lemma run_sample_total:
  assumes "engine_contract p ext" "fst (image2spikes (pixelmap img) (0 * ms)) \<noteq> []"
  shows "\<exists>data net'. run_sample p ext img net = (Inr data, net')
           \<and> length data = class_amount p * class_size p"
proof -
  obtain indices tms where enc: "image2spikes (pixelmap img) (0 * ms) = (indices, tms)"
    by (metis prod.collapse)
  have "length tms = length indices"
    using enc image2spikes_scan [of "pixelmap img" "0 * ms"] by auto
  with assms(2) enc have ne: "tms \<noteq> []" by auto
  obtain counts net2 where
    "run ext (cycle_time p) True
       (net\<lparr>live := set_spikes indices (map (\<lambda>x. x + sim_t (live net)) tms) (live net)\<rparr>)
     = (Inr (Some counts), net2)"
    and "length counts = class_amount p * class_size p"
    using run_record_total [OF assms(1)] by blast
  with enc ne show ?thesis
    by (simp add: run_sample_def add_quantity_def)
qed

lemma run_sample_blank:
  assumes "fst (image2spikes (pixelmap img) (0 * ms)) = []"
  shows "run_sample p ext img net = (Inl DimensionMismatchError, net)"
proof -
  obtain indices tms where enc: "image2spikes (pixelmap img) (0 * ms) = (indices, tms)"
    by (metis prod.collapse)
  have "length tms = length indices"
    using enc image2spikes_scan [of "pixelmap img" "0 * ms"] by auto
  with assms enc have "tms = []" by auto
  with enc show ?thesis
    by (simp add: run_sample_def add_quantity_def)
qed

lemma class_spiking_total:
  "\<forall>i \<in> set ids. cid * cs + i < length spikes \<Longrightarrow> \<exists>r. class_spiking spikes cs cid ids acc = Inr r"
  by (induction ids arbitrary: acc) (simp_all add: list_getitem_def)

lemma class_spiking_count:
  "class_spiking spikes cs cid ids acc = Inr r
     \<Longrightarrow> r = acc + length (filter (\<lambda>i. 0 < spikes ! (cid * cs + i)) ids)"
proof (induction ids arbitrary: acc)
  case Nil
  then show ?case by simp
next
  case (Cons i ids)
  from Cons.prems have
    "class_spiking spikes cs cid ids
       (if 0 < spikes ! (cid * cs + i) then acc + 1 else acc) = Inr r"
    by (simp add: list_getitem_def split: if_splits)
  from Cons.IH [OF this] show ?case by simp
qed

lemma class_spike_numbers_length:
  "class_spike_numbers spikes cs cids acc = Inr r \<Longrightarrow> length r = length acc + length cids"
  by (induction cids arbitrary: acc) (auto split: sum.splits)

lemma class_spike_numbers_count:
  "class_spike_numbers spikes cs cids acc = Inr r
     \<Longrightarrow> r = acc @ map (\<lambda>c. length (filter (\<lambda>i. 0 < spikes ! (c * cs + i)) [0..<cs])) cids"
proof (induction cids arbitrary: acc)
  case Nil
  then show ?case by simp
next
  case (Cons c cids)
  from Cons.prems obtain k where k: "class_spiking spikes cs c [0..<cs] 0 = Inr k"
    and rest: "class_spike_numbers spikes cs cids (acc @ [k]) = Inr r"
    by (auto split: sum.splits)
  from class_spiking_count [OF k] Cons.IH [OF rest] show ?case by simp
qed

lemma class_spike_numbers_total:
  "\<forall>c \<in> set cids. \<forall>i < cs. c * cs + i < length spikes
     \<Longrightarrow> \<exists>r. class_spike_numbers spikes cs cids acc = Inr r"
proof (induction cids arbitrary: acc)
  case Nil
  show ?case by simp
next
  case (Cons c cids)
  have "\<forall>i \<in> set [0..<cs]. c * cs + i < length spikes"
    using Cons.prems by simp
  then obtain r where "class_spiking spikes cs c [0..<cs] 0 = Inr r"
    using class_spiking_total by blast
  then show ?case using Cons by simp
qed

lemma block_index_bound:
  fixes c i cs ca :: nat
  assumes "c < ca" "i < cs"
  shows "c * cs + i < ca * cs"
proof -
  have "c * cs + i < Suc c * cs" using assms by simp
  also have "Suc c * cs \<le> ca * cs"
    using assms by (intro mult_le_mono1) simp
  finally show ?thesis .
qed

lemma get_class_spike_number_total:
  assumes "ca * cs \<le> length spikes"
  shows "\<exists>r. get_class_spike_number spikes cs ca = Inr r"
proof -
  have "\<forall>c \<in> set [0..<ca]. \<forall>i < cs. c * cs + i < length spikes"
    using assms block_index_bound [of _ ca _ cs] by fastforce
  then show ?thesis
    unfolding get_class_spike_number_def by (rule class_spike_numbers_total)
qed

lemma get_class_spike_number_length:
  "get_class_spike_number spikes cs ca = Inr r \<Longrightarrow> length r = ca"
  unfolding get_class_spike_number_def by (drule class_spike_numbers_length) simp

lemma get_class_spike_number_active:
  assumes "get_class_spike_number spikes (class_size p) (class_amount p) = Inr r"
    and "c < class_amount p"
  shows "r ! c = length (filter (\<lambda>n. 0 < spikes ! n) (class_block p c))"
proof -
  from assms(1) have "r = map (\<lambda>c. length (filter (\<lambda>i. 0 < spikes ! (c * class_size p + i))
                                    [0..<class_size p])) [0..<class_amount p]"
    unfolding get_class_spike_number_def using class_spike_numbers_count by fastforce
  with assms(2) show ?thesis
    by (simp add: class_block_def filter_map comp_def)
qed

lemma test_loop_stored:
  "test_loop p ext imgs (res, n, lg, net) = (r, net') \<Longrightarrow> stored net' = stored net"
proof (induction imgs arbitrary: res n lg net)
  case Nil
  then show ?case by simp
next
  case (Cons img imgs)
  show ?case
    using Cons.prems
    by (auto simp: Let_def split: prod.splits sum.splits if_splits
        dest!: run_sample_stored Cons.IH)
qed

lemma test_loop_result:
  "test_loop p ext imgs (res, n, lg, net) = (Inr (res', n', lg'), net') \<Longrightarrow>
     \<exists>rrs. length rrs = length imgs \<and> lg' = lg @ rrs
       \<and> (\<forall>i < length imgs. \<exists>data.
             fst (run_sample p ext (imgs ! i) (sample_states p ext imgs net ! i)) = Inr data
             \<and> get_class_spike_number data (class_size p) (class_amount p) = Inr (rrs ! i))
       \<and> success res' = success res
            @ map (\<lambda>(img, rr). fst (fst (find_best rr)) = class' img \<and> \<not> snd (find_best rr)) (zip imgs rrs)
       \<and> image' res' = image' res @ map class' imgs"
proof (induction imgs arbitrary: res n lg net)
  case Nil
  then show ?case by simp
next
  case (Cons img imgs)
  from Cons.prems obtain data net2 rr where
    run: "run_sample p ext img net = (Inr data, net2)"
    and rr: "get_class_spike_number data (class_size p) (class_amount p) = Inr rr"
    and rest: "test_loop p ext imgs
        (res\<lparr>image' := image' res @ [class' img],
             success := success res @ [fst (fst (find_best rr)) = class' img \<and> \<not> snd (find_best rr)]\<rparr>,
         (if fst (fst (find_best rr)) = class' img \<and> \<not> snd (find_best rr) then n + 1 else n),
         lg @ [rr], net2) = (Inr (res', n', lg'), net')"
    by (auto simp: Let_def split: prod.splits sum.splits if_splits)
  from Cons.IH [OF rest] obtain rrs where
    l: "length rrs = length imgs" and g: "lg' = (lg @ [rr]) @ rrs"
    and d: "\<forall>i < length imgs. \<exists>data.
             fst (run_sample p ext (imgs ! i) (sample_states p ext imgs net2 ! i)) = Inr data
             \<and> get_class_spike_number data (class_size p) (class_amount p) = Inr (rrs ! i)"
    and s: "success res' = (success res @ [fst (fst (find_best rr)) = class' img \<and> \<not> snd (find_best rr)])
            @ map (\<lambda>(img, rr). fst (fst (find_best rr)) = class' img \<and> \<not> snd (find_best rr)) (zip imgs rrs)"
    and im: "image' res' = (image' res @ [class' img]) @ map class' imgs"
    by auto
  have "\<forall>i < length (img # imgs). \<exists>data.
          fst (run_sample p ext ((img # imgs) ! i) (sample_states p ext (img # imgs) net ! i)) = Inr data
          \<and> get_class_spike_number data (class_size p) (class_amount p) = Inr ((rr # rrs) ! i)"
  proof (intro allI impI)
    fix i assume i: "i < length (img # imgs)"
    show "\<exists>data.
          fst (run_sample p ext ((img # imgs) ! i) (sample_states p ext (img # imgs) net ! i)) = Inr data
          \<and> get_class_spike_number data (class_size p) (class_amount p) = Inr ((rr # rrs) ! i)"
    proof (cases i)
      case 0
      with run rr show ?thesis by simp
    next
      case (Suc j)
      with i d run show ?thesis by simp
    qed
  qed
  with l g s im show ?case
    by (intro exI [of _ "rr # rrs"]) simp
qed

lemma test_loop_total:
  assumes "engine_contract p ext"
    and "\<forall>img \<in> set imgs. fst (image2spikes (pixelmap img) (0 * ms)) \<noteq> []"
  shows "\<exists>res' n' lg' net'. test_loop p ext imgs (res, n, lg, net) = (Inr (res', n', lg'), net')"
  using assms(2)
proof (induction imgs arbitrary: res n lg net)
  case Nil
  show ?case by simp
next
  case (Cons img imgs)
  from Cons.prems have "fst (image2spikes (pixelmap img) (0 * ms)) \<noteq> []" by simp
  from run_sample_total [OF assms(1) this, of net] obtain data net2 where
    run: "run_sample p ext img net = (Inr data, net2)"
    and len: "length data = class_amount p * class_size p"
    by blast
  obtain rr where rr: "get_class_spike_number data (class_size p) (class_amount p) = Inr rr"
    using get_class_spike_number_total [of "class_amount p" "class_size p" data] len by auto
  have "\<forall>img \<in> set imgs. fst (image2spikes (pixelmap img) (0 * ms)) \<noteq> []"
    using Cons.prems by simp
  from Cons.IH [OF this] show ?case
    using run rr by (simp add: Let_def split: prod.splits)
qed

lemma test_network_Inr:
  assumes "test_network p ext dry_run tr = (Inr (res, lg), tr')"
  shows "\<exists>res0 n net1. test_loop p ext (test_set tr)
             (\<lparr>image' = [], success = [], rate = 0, success_num = 0\<rparr>, 0, [],
              if dry_run then store ''dry_test'' (simulator tr) else simulator tr)
           = (Inr (res0, n, lg), net1)
         \<and> success res = success res0 \<and> image' res = image' res0
         \<and> test_set tr \<noteq> []
         \<and> (dry_run \<longrightarrow> restore ''dry_test'' net1 = Inr (simulator tr'))
         \<and> (\<not> dry_run \<longrightarrow> simulator tr' = net1)
         \<and> train_set tr' = train_set tr \<and> test_set tr' = test_set tr"
  using assms
  by (auto simp: test_network_def Let_def split: prod.splits sum.splits if_splits)

lemma test_network_success:
  assumes "0 < class_amount p"
    and "test_network p ext dry_run tr = (Inr (res, lg), tr')"
  shows "length (success res) = length (test_set tr) \<and> length lg = length (test_set tr)
    \<and> (\<forall>i < length (test_set tr).
          (\<exists>data. fst (run_sample p ext (test_set tr ! i)
                      (sample_states p ext (test_set tr)
                         (if dry_run then store ''dry_test'' (simulator tr) else simulator tr) ! i))
                    = Inr data
             \<and> length (lg ! i) = class_amount p
             \<and> (\<forall>c < class_amount p.
                   lg ! i ! c = length (filter (\<lambda>n. 0 < data ! n) (class_block p c))))
          \<and> image' res ! i = class' (test_set tr ! i)
          \<and> (success res ! i \<longleftrightarrow>
               (class' (test_set tr ! i) < class_amount p
                \<and> (\<forall>j < class_amount p. j \<noteq> class' (test_set tr ! i)
                      \<longrightarrow> lg ! i ! j < lg ! i ! class' (test_set tr ! i)))))"
proof -
  let ?net0 = "if dry_run then store ''dry_test'' (simulator tr) else simulator tr"
  from test_network_Inr [OF assms(2)] obtain res0 n net1 where
    loop: "test_loop p ext (test_set tr)
             (\<lparr>image' = [], success = [], rate = 0, success_num = 0\<rparr>, 0, [], ?net0)
           = (Inr (res0, n, lg), net1)"
    and eq: "success res = success res0" "image' res = image' res0"
    by blast
  from test_loop_result [OF loop] obtain rrs where
    len: "length rrs = length (test_set tr)" and lg: "lg = rrs"
    and data: "\<forall>i < length (test_set tr). \<exists>data.
             fst (run_sample p ext (test_set tr ! i) (sample_states p ext (test_set tr) ?net0 ! i))
               = Inr data
             \<and> get_class_spike_number data (class_size p) (class_amount p) = Inr (rrs ! i)"
    and succ: "success res0 =
         map (\<lambda>(img, rr). fst (fst (find_best rr)) = class' img \<and> \<not> snd (find_best rr))
           (zip (test_set tr) rrs)"
    and img: "image' res0 = map class' (test_set tr)"
    by auto
  have "\<forall>i < length (test_set tr).
          (\<exists>data. fst (run_sample p ext (test_set tr ! i)
                      (sample_states p ext (test_set tr) ?net0 ! i)) = Inr data
             \<and> length (lg ! i) = class_amount p
             \<and> (\<forall>c < class_amount p.
                   lg ! i ! c = length (filter (\<lambda>n. 0 < data ! n) (class_block p c))))
          \<and> image' res ! i = class' (test_set tr ! i)
          \<and> (success res ! i \<longleftrightarrow>
               (class' (test_set tr ! i) < class_amount p
                \<and> (\<forall>j < class_amount p. j \<noteq> class' (test_set tr ! i)
                      \<longrightarrow> lg ! i ! j < lg ! i ! class' (test_set tr ! i))))"
  proof (intro allI impI)
    fix i assume i: "i < length (test_set tr)"
    with data obtain d where
      run: "fst (run_sample p ext (test_set tr ! i) (sample_states p ext (test_set tr) ?net0 ! i))
              = Inr d"
      and d: "get_class_spike_number d (class_size p) (class_amount p) = Inr (rrs ! i)"
      by blast
    from d have l: "length (rrs ! i) = class_amount p"
      by (rule get_class_spike_number_length)
    with assms(1) have ne: "rrs ! i \<noteq> []" by auto
    have act: "\<forall>c < class_amount p.
                 rrs ! i ! c = length (filter (\<lambda>n. 0 < d ! n) (class_block p c))"
      using get_class_spike_number_active [OF d] by blast
    have s: "success res ! i \<longleftrightarrow>
            (fst (fst (find_best (rrs ! i))) = class' (test_set tr ! i) \<and> \<not> snd (find_best (rrs ! i)))"
      using i len by (simp add: eq succ)
    have 1: "\<exists>data. fst (run_sample p ext (test_set tr ! i)
                      (sample_states p ext (test_set tr) ?net0 ! i)) = Inr data
             \<and> length (lg ! i) = class_amount p
             \<and> (\<forall>c < class_amount p.
                   lg ! i ! c = length (filter (\<lambda>n. 0 < data ! n) (class_block p c)))"
      using run l act unfolding lg by blast
    have 2: "image' res ! i = class' (test_set tr ! i)"
      using i by (simp add: eq img)
    have 3: "success res ! i \<longleftrightarrow>
               (class' (test_set tr ! i) < class_amount p
                \<and> (\<forall>j < class_amount p. j \<noteq> class' (test_set tr ! i)
                      \<longrightarrow> lg ! i ! j < lg ! i ! class' (test_set tr ! i)))"
      using find_best_unique_max [OF ne, of "class' (test_set tr ! i)"] s l
      unfolding lg by simp
    from 1 2 3 show "(\<exists>data. fst (run_sample p ext (test_set tr ! i)
                      (sample_states p ext (test_set tr) ?net0 ! i)) = Inr data
             \<and> length (lg ! i) = class_amount p
             \<and> (\<forall>c < class_amount p.
                   lg ! i ! c = length (filter (\<lambda>n. 0 < data ! n) (class_block p c))))
          \<and> image' res ! i = class' (test_set tr ! i)
          \<and> (success res ! i \<longleftrightarrow>
               (class' (test_set tr ! i) < class_amount p
                \<and> (\<forall>j < class_amount p. j \<noteq> class' (test_set tr ! i)
                      \<longrightarrow> lg ! i ! j < lg ! i ! class' (test_set tr ! i))))"
      by (intro conjI)
  qed
  moreover have "length (success res) = length (test_set tr)"
    using len by (simp add: eq succ)
  ultimately show ?thesis using len lg by simp
qed

lemma test_network_total:
  assumes "engine_contract p ext" "test_set tr \<noteq> []"
    and "\<forall>img \<in> set (test_set tr). fst (image2spikes (pixelmap img) (0 * ms)) \<noteq> []"
  shows "\<exists>res lg tr'. test_network p ext dry_run tr = (Inr (res, lg), tr')"
proof -
  let ?net0 = "if dry_run then store ''dry_test'' (simulator tr) else simulator tr"
  obtain res0 n lg net1 where
    loop: "test_loop p ext (test_set tr)
             (\<lparr>image' = [], success = [], rate = 0, success_num = 0\<rparr>, 0, [], ?net0)
           = (Inr (res0, n, lg), net1)"
    using test_loop_total [OF assms(1) assms(3)] by blast
  have "stored net1 = stored ?net0"
    using loop by (rule test_loop_stored)
  then have "dry_run \<Longrightarrow> stored net1 ''dry_test'' = Some (live (simulator tr))"
    by (simp add: store_def)
  then show ?thesis
    using loop assms(2)
    by (cases dry_run) (simp_all add: test_network_def Let_def restore_def)
qed

lemma dry_run_returns_restored:
  assumes "test_network p ext True tr = (Inr (res, lg), tr')"
  shows "live (simulator tr') = live (simulator tr)
     \<and> stored (simulator tr') = (stored (simulator tr))(''dry_test'' \<mapsto> live (simulator tr))"
proof -
  from test_network_Inr [OF assms] obtain res0 n net1 where
    loop: "test_loop p ext (test_set tr)
             (\<lparr>image' = [], success = [], rate = 0, success_num = 0\<rparr>, 0, [],
              store ''dry_test'' (simulator tr)) = (Inr (res0, n, lg), net1)"
    and rs: "restore ''dry_test'' net1 = Inr (simulator tr')"
    by auto
  have "stored net1 = stored (store ''dry_test'' (simulator tr))"
    using loop by (rule test_loop_stored)
  then have st: "stored net1 = (stored (simulator tr))(''dry_test'' \<mapsto> live (simulator tr))"
    by (simp add: store_def)
  with rs have "simulator tr' = net1\<lparr>live := live (simulator tr)\<rparr>"
    by (simp add: restore_def)
  with st show ?thesis by simp
qed

lemma demo_engine_contract: "engine_contract demo_parameters demo_engine"
  by (simp add: engine_contract_def demo_parameters_def demo_engine_def brawn_parameters_def)

lemma demo_test_network:
  "(case fst (test_network demo_parameters demo_engine False demo_trainer) of
      Inl e \<Rightarrow> None | Inr (res, lg) \<Rightarrow> Some (success res, lg))
   = Some ([False, True, False], [[1, 1, 0], [0, 1, 0], [0, 1, 0]])"
  by code_simp

lemma demo_test_set_not_blank:
  "\<forall>img \<in> set (test_set demo_trainer). fst (image2spikes (pixelmap img) (0 * ms)) \<noteq> []"
  by (simp add: demo_trainer_def image2spikes_def)

text \<open>
  Claim C5.  Let there be at least one class.  With an engine that keeps its contract,
  a non-empty test set and no blank test image, \<open>test_network\<close> returns.  (The encoding of
  a blank image is empty, and \<open>times + self.simulator.t\<close> raises on the empty list.)
  Whenever \<open>test_network\<close> returns, it has recorded one entry per test sample, and for
  the \<open>i\<close>-th sample:
  \<^item> the run of the sample, started at the state the runs of its predecessors left,
    returned the spike counts \<open>data\<close> of the output neurons, and the logged list
    \<open>run_results\<close> holds for each class the number of active neurons of its block, those
    with a positive count in \<open>data\<close>;
  \<^item> the sample is recorded as a success if and only if its label is a class whose
    count is strictly greater than the count of every other class.

  A maximum shared by two or more classes is therefore a failure, also when the label
  is one of them.
\<close>

theorem test_network_prediction:
  assumes "0 < class_amount p"
  shows "(engine_contract p ext \<and> test_set tr \<noteq> []
          \<and> (\<forall>img \<in> set (test_set tr). fst (image2spikes (pixelmap img) (0 * ms)) \<noteq> []) \<longrightarrow>
            (\<exists>res lg tr'. test_network p ext dry_run tr = (Inr (res, lg), tr')))
    \<and> (\<forall>res lg tr'. test_network p ext dry_run tr = (Inr (res, lg), tr') \<longrightarrow>
          length (success res) = length (test_set tr) \<and> length lg = length (test_set tr)
          \<and> (\<forall>i < length (test_set tr).
                (\<exists>data. fst (run_sample p ext (test_set tr ! i)
                            (sample_states p ext (test_set tr)
                               (if dry_run then store ''dry_test'' (simulator tr) else simulator tr) ! i))
                          = Inr data
                   \<and> length (lg ! i) = class_amount p
                   \<and> (\<forall>c < class_amount p.
                         lg ! i ! c = length (filter (\<lambda>n. 0 < data ! n) (class_block p c))))
                \<and> image' res ! i = class' (test_set tr ! i)
                \<and> (success res ! i \<longleftrightarrow>
                     (class' (test_set tr ! i) < class_amount p
                      \<and> (\<forall>j < class_amount p. j \<noteq> class' (test_set tr ! i)
                            \<longrightarrow> lg ! i ! j < lg ! i ! class' (test_set tr ! i))))))"
proof (intro conjI impI allI)
  assume "engine_contract p ext \<and> test_set tr \<noteq> []
          \<and> (\<forall>img \<in> set (test_set tr). fst (image2spikes (pixelmap img) (0 * ms)) \<noteq> [])"
  then show "\<exists>res lg tr'. test_network p ext dry_run tr = (Inr (res, lg), tr')"
    using test_network_total [of p ext tr dry_run] by blast
next
  fix res lg tr'
  assume r: "test_network p ext dry_run tr = (Inr (res, lg), tr')"
  from test_network_success [OF assms r]
  show "length (success res) = length (test_set tr)" and "length lg = length (test_set tr)"
    by simp_all
next
  fix res lg tr' i
  assume r: "test_network p ext dry_run tr = (Inr (res, lg), tr')"
    and i: "i < length (test_set tr)"
  from test_network_success [OF assms r] i
  show "\<exists>data. fst (run_sample p ext (test_set tr ! i)
                            (sample_states p ext (test_set tr)
                               (if dry_run then store ''dry_test'' (simulator tr) else simulator tr) ! i))
                          = Inr data
                   \<and> length (lg ! i) = class_amount p
                   \<and> (\<forall>c < class_amount p.
                         lg ! i ! c = length (filter (\<lambda>n. 0 < data ! n) (class_block p c)))"
    and "image' res ! i = class' (test_set tr ! i)"
    and "success res ! i \<longleftrightarrow>
                     (class' (test_set tr ! i) < class_amount p
                      \<and> (\<forall>j < class_amount p. j \<noteq> class' (test_set tr ! i)
                            \<longrightarrow> lg ! i ! j < lg ! i ! class' (test_set tr ! i)))"
    by simp_all
qed

theorem test_network_prediction_witness:
  "0 < class_amount demo_parameters \<and> engine_contract demo_parameters demo_engine
   \<and> test_set demo_trainer \<noteq> []
   \<and> (\<exists>res lg tr'. test_network demo_parameters demo_engine False demo_trainer
          = (Inr (res, lg), tr')
        \<and> lg = [[1, 1, 0], [0, 1, 0], [0, 1, 0]]
        \<and> success res = [False, True, False]
        \<and> length (success res) = length (test_set demo_trainer))"
proof -
  have ca: "0 < class_amount demo_parameters"
    by (simp add: demo_parameters_def)
  have ts: "test_set demo_trainer \<noteq> []"
    by (simp add: demo_trainer_def)
  note inst = test_network_prediction [OF ca, of demo_engine demo_trainer False]
  from inst demo_engine_contract ts demo_test_set_not_blank obtain res lg tr' where
    r: "test_network demo_parameters demo_engine False demo_trainer = (Inr (res, lg), tr')"
    by blast
  with inst have len: "length (success res) = length (test_set demo_trainer)"
    by blast
  from r demo_test_network have "lg = [[1, 1, 0], [0, 1, 0], [0, 1, 0]]"
    and "success res = [False, True, False]"
    by simp_all
  with r len have "\<exists>res lg tr'. test_network demo_parameters demo_engine False demo_trainer
          = (Inr (res, lg), tr')
        \<and> lg = [[1, 1, 0], [0, 1, 0], [0, 1, 0]]
        \<and> success res = [False, True, False]
        \<and> length (success res) = length (test_set demo_trainer)"
    by (intro exI [of _ res] exI [of _ lg] exI [of _ tr']) (simp only: simp_thms)
  with ca ts demo_engine_contract show ?thesis by (simp only: simp_thms)
qed

lemma blank_dry_run:
  "(case test_network demo_parameters demo_engine True blank_test_trainer of
      (r, tr') \<Rightarrow> (case r of Inl e \<Rightarrow> Some e | Inr x \<Rightarrow> None,
                   sim_t (live (simulator tr')),
                   stored (simulator tr') ''dry_test'' = Some (live (simulator blank_test_trainer))))
   = (Some DimensionMismatchError, 30 * ms, True)"
  by code_simp

text \<open>
  Claim C7.  A dry run does not restore the simulator when a test image is blank.
  \<open>test_network\<close> stores the state under \<open>dry_test\<close> before the loop and restores it after
  the loop, with no \<open>try\<close> ... \<open>finally\<close> around the loop.  The encoding of a blank image is
  empty and \<open>times + self.simulator.t\<close> raises on the empty list, so the exception leaves
  \<open>test_network\<close> before \<open>restore\<close>.  With the test set of \<open>blank_test_trainer\<close>, a non-blank
  image followed by a blank one, the dry run raises after the run of the first image
  has advanced the simulator from 0 to 30 ms: the live state it leaves is not the
  state before the call.
\<close>

theorem dry_run_blank_image_not_restored:
  "fst (test_network demo_parameters demo_engine True blank_test_trainer)
     = Inl DimensionMismatchError
   \<and> sim_t (live (simulator blank_test_trainer)) = 0
   \<and> sim_t (live (simulator (snd (test_network demo_parameters demo_engine True
                                   blank_test_trainer)))) = 30 * ms
   \<and> live (simulator (snd (test_network demo_parameters demo_engine True blank_test_trainer)))
       \<noteq> live (simulator blank_test_trainer)"
proof -
  obtain r tr' where t: "test_network demo_parameters demo_engine True blank_test_trainer = (r, tr')"
    by (metis prod.collapse)
  with blank_dry_run have e: "r = Inl DimensionMismatchError"
    and s: "sim_t (live (simulator tr')) = 30 * ms"
    by (auto split: sum.splits)
  have z: "sim_t (live (simulator blank_test_trainer)) = 0"
    by (simp add: blank_test_trainer_def demo_trainer_def demo_network_def)
  have "live (simulator tr') \<noteq> live (simulator blank_test_trainer)"
  proof
    assume "live (simulator tr') = live (simulator blank_test_trainer)"
    then have "sim_t (live (simulator tr')) = sim_t (live (simulator blank_test_trainer))"
      by simp
    with s z show False by (simp add: ms_def)
  qed
  with t e s z show ?thesis by simp
qed

section \<open>Properties of the training step\<close>

lemma not_trainer_error_simps [simp]:
  "not_trainer_error IndexError" "not_trainer_error KeyError" "not_trainer_error ValueError"
  "not_trainer_error TypeError" "not_trainer_error ZeroDivisionError"
  "not_trainer_error DimensionMismatchError"
  "\<not> not_trainer_error (TrainerError x)"
  by (simp_all add: not_trainer_error_def)

lemma count_spikes_keys_error:
  "count_spikes_keys d start stop ks = Inl err \<Longrightarrow> not_trainer_error err"
  by (induction ks) (auto simp: getitem_def split: option.splits sum.splits)

lemma run_error: "run ext d b net = (Inl err, net') \<Longrightarrow> not_trainer_error err"
  by (auto simp: run_def Let_def count_spikes_def split: prod.splits if_splits sum.splits
      dest: count_spikes_keys_error)

lemma class_spiking_error:
  "class_spiking spikes cs cid ids acc = Inl err \<Longrightarrow> not_trainer_error err"
  by (induction ids arbitrary: acc) (auto simp: list_getitem_def split: if_splits)

lemma class_spike_numbers_error:
  "class_spike_numbers spikes cs cids acc = Inl err \<Longrightarrow> not_trainer_error err"
  by (induction cids arbitrary: acc) (auto split: sum.splits dest: class_spiking_error)

lemma get_class_spike_number_error:
  "get_class_spike_number spikes cs ca = Inl err \<Longrightarrow> not_trainer_error err"
  unfolding get_class_spike_number_def by (rule class_spike_numbers_error)

lemma class_member_ids_error:
  "class_member_ids spikes cs cid ids acc = Inl err \<Longrightarrow> not_trainer_error err"
  by (induction spikes cs cid ids acc rule: class_member_ids.induct)
     (auto simp: list_getitem_def Let_def split: if_splits)

lemma class_spike_ids_error:
  "class_spike_ids spikes cs cids acc = Inl err \<Longrightarrow> not_trainer_error err"
  by (induction spikes cs cids acc rule: class_spike_ids.induct)
     (auto split: sum.splits dest: class_member_ids_error)

lemma get_class_spike_ids_error:
  "get_class_spike_ids spikes cs ca = Inl err \<Longrightarrow> not_trainer_error err"
  unfolding get_class_spike_ids_def by (rule class_spike_ids_error)

lemma potentiate_loop_error:
  "potentiate_loop k st = (Some err, st') \<Longrightarrow> not_trainer_error err"
  by (induction k st rule: potentiate_loop.induct)
     (auto simp: choice_def list_remove_def set_flag_def split: if_splits)

lemma depress_loop_error:
  "depress_loop k st = (Some err, st') \<Longrightarrow> not_trainer_error err"
  by (induction k st rule: depress_loop.induct)
     (auto simp: choice_def list_remove_def set_flag_def split: if_splits)

lemma markers_step_error:
  "markers_step p label sp nsp cid st = (Some err, st') \<Longrightarrow> not_trainer_error err"
  by (auto simp: markers_step_def list_getitem_def Let_def split: prod.splits if_splits
      dest: potentiate_loop_error depress_loop_error)

lemma markers_loop_error:
  "markers_loop p label sp nsp cids st = (Some err, st') \<Longrightarrow> not_trainer_error err"
  by (induction cids arbitrary: st)
     (auto split: prod.splits option.splits dest: markers_step_error)

lemma hold_loop_error:
  "hold_loop hl out = (Some err, out') \<Longrightarrow> not_trainer_error err"
  by (induction hl arbitrary: out) (auto simp: set_flag_def split: if_splits)

lemma set_markers_error:
  "set_markers p img sp nsp st = (Some err, st') \<Longrightarrow> not_trainer_error err"
  by (auto simp: set_markers_def split: prod.splits option.splits
      dest: markers_loop_error hold_loop_error)

lemma teaching_runs_error:
  "teaching_runs p ext indices tt k net = (Some err, net') \<Longrightarrow> not_trainer_error err"
  by (induction k arbitrary: net)
     (auto simp: Let_def add_quantity_def split: prod.splits sum.splits if_splits dest: run_error)

lemma apply_training_error:
  "apply_training p ext indices net = (Some err, net') \<Longrightarrow> not_trainer_error err"
  by (auto simp: apply_training_def Let_def split: prod.splits option.splits
      dest: teaching_runs_error)

lemma run_sample_error:
  "run_sample p ext img net = (Inl err, net') \<Longrightarrow> not_trainer_error err"
  by (auto simp: run_sample_def add_quantity_def
      split: prod.splits sum.splits option.splits if_splits dest: run_error)

lemma test_loop_error:
  "test_loop p ext imgs (res, n, lg, net) = (Inl err, net') \<Longrightarrow> not_trainer_error err"
proof (induction imgs arbitrary: res n lg net)
  case Nil
  then show ?case by simp
next
  case (Cons img imgs)
  show ?case
    using Cons.prems
    by (auto simp: Let_def split: prod.splits sum.splits if_splits
        dest: run_sample_error get_class_spike_number_error Cons.IH)
qed

lemma test_network_error:
  "test_network p ext dry_run tr = (Inl err, tr') \<Longrightarrow> not_trainer_error err"
  by (auto simp: test_network_def Let_def restore_def
      split: prod.splits sum.splits option.splits if_splits dest: test_loop_error)

lemma monitor_progress_error:
  "monitor_progress p ext tr = (Some err, tr') \<Longrightarrow> err \<noteq> TrainerError (EmptyPicture n)"
  by (auto simp: monitor_progress_def Let_def
      split: prod.splits sum.splits if_splits ws_reply.splits dest: test_network_error)

lemma train_empty_picture:
  assumes "train_set tr = img # remaining"
    and "fst (image2spikes (pixelmap img) (0 * ms)) = []"
  shows "train p ext (tr, rng) =
           (Some (TrainerError (EmptyPicture (int (train_data_size p) - int (length remaining)))),
            tr\<lparr>train_set := remaining\<rparr>, rng)"
  using assms
  by (cases "image2spikes (pixelmap img) (0 * ms)") (simp add: train_def Let_def)

lemma train_other_errors:
  assumes "train_set tr = img # remaining"
    and "fst (image2spikes (pixelmap img) (0 * ms)) \<noteq> []"
  shows "fst (train p ext (tr, rng)) \<noteq> Some (TrainerError (EmptyPicture n))"
proof
  assume a: "fst (train p ext (tr, rng)) = Some (TrainerError (EmptyPicture n))"
  obtain tr' rng' where t: "train p ext (tr, rng) = (Some (TrainerError (EmptyPicture n)), tr', rng')"
    using a by (metis prod.collapse)
  from t assms show False
    by (auto simp: train_def Let_def add_quantity_def
        split: prod.splits sum.splits option.splits if_splits
        dest: run_error get_class_spike_ids_error set_markers_error apply_training_error
          monitor_progress_error)
qed

lemma demo_train:
  "fst (train demo_parameters demo_engine (demo_trainer, \<lambda>i. 0))
     = Some (TrainerError (EmptyPicture 149))"
  by (simp add: train_def demo_trainer_def demo_parameters_def brawn_parameters_def
      image2spikes_def)

text \<open>
  Claim C6.  \<open>train\<close> raises \<open>TrainerError\<close> with the payload of the empty picture and the
  position \<open>n\<close> exactly when the training set is non-empty, the spike encoding of the
  popped sample is empty and \<open>n\<close> is \<open>train_data_size\<close> minus the length of the remaining
  training set.
\<close>

theorem train_empty_input_error:
  "fst (train p ext (tr, rng)) = Some (TrainerError (EmptyPicture n))
   \<longleftrightarrow> (\<exists>img remaining. train_set tr = img # remaining
          \<and> fst (image2spikes (pixelmap img) (0 * ms)) = []
          \<and> n = int (train_data_size p) - int (length remaining))"
proof (cases "train_set tr")
  case Nil
  then show ?thesis by (simp add: train_def)
next
  case (Cons img remaining)
  show ?thesis
  proof (cases "fst (image2spikes (pixelmap img) (0 * ms)) = []")
    case True
    with Cons show ?thesis by (auto simp: train_empty_picture)
  next
    case False
    with Cons train_other_errors [OF Cons False] show ?thesis by auto
  qed
qed

theorem train_empty_input_error_witness:
  "fst (train demo_parameters demo_engine (demo_trainer, \<lambda>i. 0))
     = Some (TrainerError (EmptyPicture 149))
   \<and> fst (train demo_parameters demo_engine
            (demo_trainer\<lparr>train_set := tl (train_set demo_trainer)\<rparr>, \<lambda>i. 0))
       \<noteq> Some (TrainerError (EmptyPicture 150))"
  using train_empty_input_error [of demo_parameters demo_engine demo_trainer "\<lambda>i. 0" 149]
    train_empty_input_error [of demo_parameters demo_engine
      "demo_trainer\<lparr>train_set := tl (train_set demo_trainer)\<rparr>" "\<lambda>i. 0" 150]
  by (simp add: demo_trainer_def demo_parameters_def brawn_parameters_def image2spikes_def)

text \<open>
  Claim C10.  Whenever \<open>train\<close> raises for an empty spike encoding, the sample has been
  popped before the check: the training set is one element shorter, the trainer is
  not left as it was, and nothing else of it has changed.
\<close>

theorem train_error_consumes_sample:
  assumes "fst (train p ext (tr, rng)) = Some (TrainerError (EmptyPicture n))"
  shows "\<exists>img. train_set tr = img # train_set (fst (snd (train p ext (tr, rng))))
           \<and> fst (image2spikes (pixelmap img) (0 * ms)) = []
           \<and> Suc (length (train_set (fst (snd (train p ext (tr, rng)))))) = length (train_set tr)
           \<and> fst (snd (train p ext (tr, rng))) \<noteq> tr
           \<and> fst (snd (train p ext (tr, rng))) = tr\<lparr>train_set := tl (train_set tr)\<rparr>"
proof (cases "train_set tr")
  case Nil
  with assms show ?thesis by (simp add: train_def)
next
  case (Cons img remaining)
  have enc: "fst (image2spikes (pixelmap img) (0 * ms)) = []"
    using train_other_errors [OF Cons] assms by blast
  have "tr\<lparr>train_set := remaining\<rparr> \<noteq> tr"
  proof
    assume "tr\<lparr>train_set := remaining\<rparr> = tr"
    then have "train_set (tr\<lparr>train_set := remaining\<rparr>) = train_set tr" by simp
    with Cons show False by simp
  qed
  then show ?thesis
    using Cons enc by (simp add: train_empty_picture [OF Cons enc])
qed

theorem train_error_consumes_sample_witness:
  "fst (train demo_parameters demo_engine (demo_trainer, \<lambda>i. 0))
     = Some (TrainerError (EmptyPicture 149))
   \<and> length (train_set demo_trainer) = 2
   \<and> length (train_set (fst (snd (train demo_parameters demo_engine (demo_trainer, \<lambda>i. 0))))) = 1
   \<and> fst (snd (train demo_parameters demo_engine (demo_trainer, \<lambda>i. 0))) \<noteq> demo_trainer"
proof -
  from train_error_consumes_sample [OF demo_train] obtain img where
    "train_set demo_trainer
       = img # train_set (fst (snd (train demo_parameters demo_engine (demo_trainer, \<lambda>i. 0))))"
    and "fst (snd (train demo_parameters demo_engine (demo_trainer, \<lambda>i. 0))) \<noteq> demo_trainer"
    by blast
  moreover have "length (train_set demo_trainer) = 2"
    by (simp add: demo_trainer_def)
  ultimately show ?thesis
    using demo_train by (metis length_Cons add_diff_cancel_left' plus_1_eq_Suc one_add_one diff_Suc_1 Suc_1)
qed

section \<open>Properties of the marker assignment\<close>

lemma length_set_flags [simp]: "length (set_flags ns flags) = length flags"
  unfolding set_flags_def by (induction ns arbitrary: flags) simp_all

lemma set_flags_Nil [simp]: "set_flags [] flags = flags"
  by (simp add: set_flags_def)

lemma set_flags_Cons: "set_flags (n # ns) flags = set_flags ns (flags[n := 1])"
  by (simp add: set_flags_def)

lemma nth_set_flags:
  "m < length flags \<Longrightarrow> set_flags ns flags ! m = (if m \<in> set ns then 1 else flags ! m)"
proof (induction ns arbitrary: flags)
  case Nil
  show ?case by simp
next
  case (Cons n ns)
  then show ?case
    by (auto simp: set_flags_Cons nth_list_update)
qed

lemma draws_props:
  assumes "k \<le> length xs" "distinct xs"
  shows "length (draws k xs rng) = k \<and> distinct (draws k xs rng) \<and> set (draws k xs rng) \<subseteq> set xs"
  using assms
proof (induction k arbitrary: xs rng)
  case 0
  show ?case by simp
next
  case (Suc k)
  let ?n = "xs ! (rng 0 mod length xs)"
  from Suc.prems have ne: "xs \<noteq> []" by auto
  then have mem: "?n \<in> set xs" by simp
  have "k \<le> length (remove1 ?n xs)"
    using Suc.prems mem by (simp add: length_remove1)
  moreover have "distinct (remove1 ?n xs)"
    using Suc.prems by simp
  ultimately have ih: "length (draws k (remove1 ?n xs) (rng \<circ> Suc)) = k
      \<and> distinct (draws k (remove1 ?n xs) (rng \<circ> Suc))
      \<and> set (draws k (remove1 ?n xs) (rng \<circ> Suc)) \<subseteq> set (remove1 ?n xs)"
    by (rule Suc.IH)
  have "set (remove1 ?n xs) = set xs - {?n}"
    using Suc.prems by (simp add: set_remove1_eq)
  with ih mem show ?case by auto
qed

lemma fold_remove1_set:
  "distinct hl \<Longrightarrow> set (fold remove1 ns hl) = set hl - set ns \<and> distinct (fold remove1 ns hl)"
proof (induction ns arbitrary: hl)
  case Nil
  then show ?case by simp
next
  case (Cons n ns)
  then have "set (fold remove1 ns (remove1 n hl)) = set (remove1 n hl) - set ns
     \<and> distinct (fold remove1 ns (remove1 n hl))"
    by simp
  with Cons.prems show ?case by (auto simp: set_remove1_eq)
qed

lemma picks_props:
  "distinct xs \<Longrightarrow> valid_indices (length xs) idx
     \<Longrightarrow> length (picks idx xs) = length idx \<and> distinct (picks idx xs)
         \<and> set (picks idx xs) \<subseteq> set xs"
proof (induction idx arbitrary: xs)
  case Nil
  show ?case by simp
next
  case (Cons i idx)
  let ?x = "xs ! i"
  from Cons.prems have i: "i < length xs" and v: "valid_indices (length xs - 1) idx"
    by simp_all
  then have mem: "?x \<in> set xs" by simp
  have "distinct (remove1 ?x xs)" using Cons.prems by simp
  moreover have "length (remove1 ?x xs) = length xs - 1"
    using mem by (simp add: length_remove1)
  ultimately have ih: "length (picks idx (remove1 ?x xs)) = length idx
      \<and> distinct (picks idx (remove1 ?x xs))
      \<and> set (picks idx (remove1 ?x xs)) \<subseteq> set (remove1 ?x xs)"
    using Cons.IH [of "remove1 ?x xs"] v by simp
  have "set (remove1 ?x xs) = set xs - {?x}"
    using Cons.prems by (simp add: set_remove1_eq)
  with ih mem show ?case by auto
qed

lemma picks_inj:
  "distinct xs \<Longrightarrow> valid_indices (length xs) idx \<Longrightarrow> valid_indices (length xs) idx'
     \<Longrightarrow> length idx = length idx' \<Longrightarrow> picks idx xs = picks idx' xs \<Longrightarrow> idx = idx'"
proof (induction idx arbitrary: xs idx')
  case Nil
  then show ?case by simp
next
  case (Cons i idx)
  from Cons.prems(4) obtain j rest where idx': "idx' = j # rest"
    by (cases idx') simp_all
  from Cons.prems idx' have i: "i < length xs" and j: "j < length xs"
    and eq: "xs ! i = xs ! j"
    by simp_all
  from i j eq Cons.prems(1) have ij: "i = j"
    by (simp add: nth_eq_iff_index_eq)
  from Cons.prems(5) idx' ij
  have tl: "picks idx (remove1 (xs ! i) xs) = picks rest (remove1 (xs ! i) xs)"
    by simp
  let ?ys = "remove1 (xs ! i) xs"
  have len: "length ?ys = length xs - 1"
    using i by (simp add: length_remove1)
  have "idx = rest"
  proof (rule Cons.IH [of ?ys rest])
    show "distinct ?ys" using Cons.prems(1) by simp
    show "valid_indices (length ?ys) idx" using Cons.prems(2) len by simp
    show "valid_indices (length ?ys) rest" using Cons.prems(3) idx' len by simp
    show "length idx = length rest" using Cons.prems(4) idx' by simp
    show "picks idx ?ys = picks rest ?ys" by (rule tl)
  qed
  with ij idx' show ?case by simp
qed

lemma picks_surj:
  "distinct xs \<Longrightarrow> distinct tgt \<Longrightarrow> set tgt \<subseteq> set xs
     \<Longrightarrow> \<exists>idx. length idx = length tgt \<and> valid_indices (length xs) idx \<and> picks idx xs = tgt"
proof (induction tgt arbitrary: xs)
  case Nil
  show ?case by simp
next
  case (Cons a tgt)
  from Cons.prems obtain i where i: "i < length xs" "xs ! i = a"
    by (auto simp: in_set_conv_nth)
  have "distinct (remove1 a xs)" "distinct tgt" "set tgt \<subseteq> set (remove1 a xs)"
    using Cons.prems by (auto simp: set_remove1_eq)
  from Cons.IH [OF this] obtain idx where
    idx: "length idx = length tgt" "valid_indices (length (remove1 a xs)) idx"
      "picks idx (remove1 a xs) = tgt"
    by blast
  have "length (remove1 a xs) = length xs - 1"
    using i by (auto simp: length_remove1)
  with i idx have "length (i # idx) = length (a # tgt) \<and> valid_indices (length xs) (i # idx)
      \<and> picks (i # idx) xs = a # tgt"
    by simp
  then show ?case by blast
qed

lemma card_orderings:
  assumes "finite S"
  shows "card {l. length l = card S \<and> distinct l \<and> set l = S} = fact (card S)"
proof -
  have "{l. length l = card S \<and> distinct l \<and> set l = S}
        = {l. length l = card S \<and> distinct l \<and> set l \<subseteq> S}"
  proof (intro set_eqI iffI)
    fix l assume "l \<in> {l. length l = card S \<and> distinct l \<and> set l \<subseteq> S}"
    then have l: "length l = card S" "distinct l" "set l \<subseteq> S" by simp_all
    then have "card (set l) = card S" by (simp add: distinct_card)
    with l(3) assms have "set l = S" by (simp add: card_subset_eq)
    with l show "l \<in> {l. length l = card S \<and> distinct l \<and> set l = S}" by simp
  qed auto
  also have "card \<dots> = \<Prod>{card S - card S + 1 .. card S}"
    using assms by (intro card_lists_distinct_length_eq) simp_all
  also have "\<dots> = fact (card S)"
    by (simp add: fact_prod)
  finally show ?thesis .
qed

lemma card_selections:
  assumes "distinct xs" "S \<subseteq> set xs" "card S = k"
  shows "card (selections xs k S) = fact k"
proof -
  have fin: "finite S" using assms(2) by (rule finite_subset) simp
  let ?L = "{l. length l = card S \<and> distinct l \<and> set l = S}"
  have img: "(\<lambda>idx. picks idx xs) ` selections xs k S = ?L"
  proof (intro set_eqI iffI)
    fix l assume "l \<in> (\<lambda>idx. picks idx xs) ` selections xs k S"
    then obtain idx where idx: "length idx = k" "valid_indices (length xs) idx"
      "set (picks idx xs) = S" and l: "l = picks idx xs"
      by (auto simp: selections_def index_seqs_def)
    from picks_props [OF assms(1) idx(2)] idx(1,3) l assms(3) show "l \<in> ?L" by simp
  next
    fix l assume "l \<in> ?L"
    then have l: "length l = card S" "distinct l" "set l = S" by simp_all
    with assms(2) have "set l \<subseteq> set xs" by simp
    from picks_surj [OF assms(1) l(2) this] obtain idx where
      "length idx = length l" "valid_indices (length xs) idx" "picks idx xs = l"
      by blast
    with l assms(3) have "idx \<in> selections xs k S" "l = picks idx xs"
      by (simp_all add: selections_def index_seqs_def)
    then show "l \<in> (\<lambda>idx. picks idx xs) ` selections xs k S" by blast
  qed
  have inj: "inj_on (\<lambda>idx. picks idx xs) (selections xs k S)"
  proof (rule inj_onI)
    fix idx idx'
    assume "idx \<in> selections xs k S" "idx' \<in> selections xs k S"
      and "picks idx xs = picks idx' xs"
    then show "idx = idx'"
      using picks_inj [OF assms(1), of idx idx']
      by (simp add: selections_def index_seqs_def)
  qed
  have "card (selections xs k S) = card ((\<lambda>idx. picks idx xs) ` selections xs k S)"
    using inj by (simp add: card_image)
  also have "\<dots> = fact (card S)"
    unfolding img using fin by (rule card_orderings)
  finally show ?thesis using assms(3) by simp
qed

lemma draw_indices_valid:
  "k \<le> n \<Longrightarrow> length (draw_indices k n rng) = k \<and> valid_indices n (draw_indices k n rng)"
proof (induction k arbitrary: n rng)
  case 0
  show ?case by simp
next
  case (Suc k)
  then have "0 < n" "k \<le> n - 1" by simp_all
  with Suc.IH [of "n - 1" "rng \<circ> Suc"] show ?case by (simp add: comp_def)
qed

lemma draws_picks:
  "k \<le> length xs \<Longrightarrow> draws k xs rng = picks (draw_indices k (length xs) rng) xs"
proof (induction k arbitrary: xs rng)
  case 0
  show ?case by simp
next
  case (Suc k)
  let ?x = "xs ! (rng 0 mod length xs)"
  from Suc.prems have "xs \<noteq> []" by auto
  then have "?x \<in> set xs" by simp
  then have len: "length (remove1 ?x xs) = length xs - 1"
    by (simp add: length_remove1)
  with Suc.prems have "k \<le> length (remove1 ?x xs)" by simp
  from Suc.IH [OF this, of "rng \<circ> Suc"] len show ?case by (simp add: comp_def)
qed

lemma draw_indices_stream_of:
  "valid_indices n idx \<Longrightarrow> draw_indices (length idx) n (stream_of idx) = idx"
proof (induction idx arbitrary: n)
  case Nil
  show ?case by simp
next
  case (Cons i idx)
  have "stream_of (i # idx) \<circ> Suc = stream_of idx"
    by (rule ext) (simp add: stream_of_def)
  moreover have "stream_of (i # idx) 0 mod n = i"
    using Cons.prems by (simp add: stream_of_def)
  moreover have "draw_indices (length idx) (n - 1) (stream_of idx) = idx"
    using Cons by simp
  ultimately show ?case by (simp del: comp_apply)
qed

lemma drop_draws_0 [simp]: "drop_draws 0 rng = rng"
  by (simp add: drop_draws_def)

lemma drop_draws_Suc: "drop_draws k (rng \<circ> Suc) = drop_draws (Suc k) rng"
  by (rule ext) (simp add: drop_draws_def)

lemma drop_draws_add: "drop_draws a (drop_draws b rng) = drop_draws (b + a) rng"
  by (rule ext) (simp add: drop_draws_def add.assoc)

lemma depress_loop_draws:
  assumes "k \<le> length xs" "distinct xs" "\<forall>n \<in> set xs. n < length (depress out)"
  shows "\<exists>xs'. depress_loop k (xs, out, rng) =
           (None, xs', out\<lparr>depress := set_flags (draws k xs rng) (depress out)\<rparr>,
            drop_draws k rng)"
  using assms
proof (induction k arbitrary: xs out rng)
  case 0
  show ?case by simp
next
  case (Suc k)
  let ?n = "xs ! (rng 0 mod length xs)"
  let ?out = "out\<lparr>depress := (depress out)[?n := 1]\<rparr>"
  from Suc.prems have ne: "xs \<noteq> []" by auto
  then have mem: "?n \<in> set xs" by simp
  have 1: "k \<le> length (remove1 ?n xs)"
    using Suc.prems mem by (simp add: length_remove1)
  have 2: "distinct (remove1 ?n xs)"
    using Suc.prems by simp
  have 3: "\<forall>m \<in> set (remove1 ?n xs). m < length (depress ?out)"
    using Suc.prems by (auto dest: notin_set_remove1 simp: set_remove1_eq)
  from Suc.IH [OF 1 2 3, of "rng \<circ> Suc"] obtain xs' where
    "depress_loop k (remove1 ?n xs, ?out, rng \<circ> Suc) =
       (None, xs', ?out\<lparr>depress := set_flags (draws k (remove1 ?n xs) (rng \<circ> Suc)) (depress ?out)\<rparr>,
        drop_draws (Suc k) rng)"
    unfolding drop_draws_Suc by blast
  then show ?case
    using ne mem Suc.prems(3)
    by (simp add: choice_def list_remove_def set_flag_def set_flags_Cons)
qed

lemma potentiate_loop_draws:
  assumes "k \<le> length xs" "distinct xs" "set xs \<subseteq> set hl"
    "\<forall>n \<in> set xs. n < length (potentiate out)"
  shows "\<exists>xs'. potentiate_loop k (hl, xs, out, rng) =
           (None, fold remove1 (draws k xs rng) hl, xs',
            out\<lparr>potentiate := set_flags (draws k xs rng) (potentiate out)\<rparr>,
            drop_draws k rng)"
  using assms
proof (induction k arbitrary: hl xs out rng)
  case 0
  show ?case by simp
next
  case (Suc k)
  let ?n = "xs ! (rng 0 mod length xs)"
  let ?out = "out\<lparr>potentiate := (potentiate out)[?n := 1]\<rparr>"
  from Suc.prems have ne: "xs \<noteq> []" by auto
  then have mem: "?n \<in> set xs" by simp
  have 1: "k \<le> length (remove1 ?n xs)"
    using Suc.prems mem by (simp add: length_remove1)
  have 2: "distinct (remove1 ?n xs)"
    using Suc.prems by simp
  have 3: "set (remove1 ?n xs) \<subseteq> set (remove1 ?n hl)"
  proof
    fix m assume "m \<in> set (remove1 ?n xs)"
    then have "m \<in> set xs" "m \<noteq> ?n"
      using Suc.prems(2) by (simp_all add: set_remove1_eq)
    with Suc.prems(3) show "m \<in> set (remove1 ?n hl)"
      by (auto simp: in_set_remove1)
  qed
  have 4: "\<forall>m \<in> set (remove1 ?n xs). m < length (potentiate ?out)"
    using Suc.prems by (auto simp: set_remove1_eq)
  from Suc.IH [OF 1 2 3 4, of "rng \<circ> Suc"] obtain xs' where
    "potentiate_loop k (remove1 ?n hl, remove1 ?n xs, ?out, rng \<circ> Suc) =
       (None, fold remove1 (draws k (remove1 ?n xs) (rng \<circ> Suc)) (remove1 ?n hl), xs',
        ?out\<lparr>potentiate := set_flags (draws k (remove1 ?n xs) (rng \<circ> Suc)) (potentiate ?out)\<rparr>,
        drop_draws (Suc k) rng)"
    unfolding drop_draws_Suc by blast
  moreover have "?n \<in> set hl" using mem Suc.prems(3) by auto
  ultimately show ?case
    using ne mem Suc.prems(4)
    by (simp add: choice_def list_remove_def set_flag_def set_flags_Cons)
qed

lemma hold_loop_flags:
  assumes "\<forall>n \<in> set hl. n < length (hold out)"
  shows "hold_loop hl out = (None, out\<lparr>hold := set_flags hl (hold out)\<rparr>)"
  using assms
proof (induction hl arbitrary: out)
  case Nil
  show ?case by simp
next
  case (Cons n hl)
  then show ?case
    by (simp add: set_flag_def set_flags_Cons)
qed

lemma set_class_block:
  "set (class_block p k) = {k * class_size p ..< k * class_size p + class_size p}"
proof (rule set_eqI)
  fix n
  show "n \<in> set (class_block p k)
        \<longleftrightarrow> n \<in> {k * class_size p ..< k * class_size p + class_size p}"
  proof
    assume "n \<in> set (class_block p k)"
    then show "n \<in> {k * class_size p ..< k * class_size p + class_size p}"
      by (auto simp: class_block_def)
  next
    assume a: "n \<in> {k * class_size p ..< k * class_size p + class_size p}"
    then have "n = k * class_size p + (n - k * class_size p)"
      and "n - k * class_size p < class_size p"
      by auto
    then show "n \<in> set (class_block p k)"
      unfolding class_block_def by (metis atLeastLessThan_iff image_eqI le0 set_map set_upt)
  qed
qed

lemma distinct_class_block: "distinct (class_block p k)"
  by (simp add: class_block_def distinct_map inj_on_def)

lemma length_class_block: "length (class_block p k) = class_size p"
  by (simp add: class_block_def)

lemma class_block_bound:
  assumes "n \<in> set (class_block p k)" "k < class_amount p"
  shows "n < class_amount p * class_size p"
proof -
  from assms(1) have "n < Suc k * class_size p"
    by (simp add: set_class_block)
  also have "Suc k * class_size p \<le> class_amount p * class_size p"
    using assms(2) by (intro mult_le_mono1) simp
  finally show ?thesis .
qed

lemma class_block_disjoint:
  assumes "n \<in> set (class_block p k)" "n \<in> set (class_block p k')"
  shows "k = k'"
proof -
  have "n div class_size p = k"
    using assms(1) by (intro div_nat_eqI) (simp_all add: set_class_block mult.commute)
  moreover have "n div class_size p = k'"
    using assms(2) by (intro div_nat_eqI) (simp_all add: set_class_block mult.commute)
  ultimately show ?thesis by simp
qed

lemma partition_class:
  assumes "class_partition p sp nsp" "k < class_amount p"
  shows "k < length sp" "k < length nsp" "distinct (sp ! k)" "distinct (nsp ! k)"
    "set (sp ! k) \<subseteq> set (class_block p k)" "set (nsp ! k) \<subseteq> set (class_block p k)"
    "set (sp ! k) \<inter> set (nsp ! k) = {}"
    "set (sp ! k) \<union> set (nsp ! k) = set (class_block p k)"
    "length (sp ! k) + length (nsp ! k) = class_size p"
proof -
  from assms have d: "distinct (sp ! k @ nsp ! k)"
    and s: "set (sp ! k @ nsp ! k) = set (class_block p k)"
    and l: "length sp = class_amount p" "length nsp = class_amount p"
    by (simp_all add: class_partition_def)
  from l assms(2) show "k < length sp" "k < length nsp" by simp_all
  from d show "distinct (sp ! k)" "distinct (nsp ! k)" "set (sp ! k) \<inter> set (nsp ! k) = {}"
    by simp_all
  from s show "set (sp ! k) \<subseteq> set (class_block p k)" "set (nsp ! k) \<subseteq> set (class_block p k)"
    "set (sp ! k) \<union> set (nsp ! k) = set (class_block p k)"
    by auto
  have "length (sp ! k @ nsp ! k) = card (set (sp ! k @ nsp ! k))"
    using d by (simp only: distinct_card)
  also have "\<dots> = card (set (class_block p k))" by (simp only: s)
  also have "\<dots> = class_size p"
    using distinct_class_block [of p k] by (simp add: distinct_card length_class_block)
  finally show "length (sp ! k) + length (nsp ! k) = class_size p" by simp
qed

lemma class_draws_props:
  assumes part: "class_partition p sp nsp" and k: "k < class_amount p"
    and at: "active_threshold p \<le> class_size p"
  shows "draw_count p label sp k
           \<le> length (if k = label then nsp ! k else sp ! k)"
    and "distinct (if k = label then nsp ! k else sp ! k)"
    and "length (class_draws p label sp nsp k rng) = draw_count p label sp k"
    and "distinct (class_draws p label sp nsp k rng)"
    and "set (class_draws p label sp nsp k rng)
           \<subseteq> set (if k = label then nsp ! k else sp ! k)"
    and "set (class_draws p label sp nsp k rng) \<subseteq> set (class_block p k)"
proof -
  note pc = partition_class [OF part k]
  show 1: "draw_count p label sp k \<le> length (if k = label then nsp ! k else sp ! k)"
    using pc(9) at by (auto simp: draw_count_def)
  show 2: "distinct (if k = label then nsp ! k else sp ! k)"
    using pc(3,4) by auto
  from draws_props [OF 1 2, of rng]
  show "length (class_draws p label sp nsp k rng) = draw_count p label sp k"
    and "distinct (class_draws p label sp nsp k rng)"
    and 3: "set (class_draws p label sp nsp k rng)
           \<subseteq> set (if k = label then nsp ! k else sp ! k)"
    by (simp_all add: class_draws_def)
  from 3 pc(5,6) show "set (class_draws p label sp nsp k rng) \<subseteq> set (class_block p k)"
    by (auto split: if_splits)
qed

lemma markers_step_target:
  assumes part: "class_partition p sp nsp" and k: "k < class_amount p"
    and at: "active_threshold p \<le> class_size p"
    and len: "flags_len (class_amount p * class_size p) out"
  shows "markers_step p k sp nsp k (hl, out, rng) =
           (None, fold remove1 (class_draws p k sp nsp k rng) (hl @ class_block p k),
            out\<lparr>potentiate := set_flags (class_draws p k sp nsp k rng) (potentiate out)\<rparr>,
            drop_draws (draw_count p k sp k) rng)"
proof (cases "length (sp ! k) < active_threshold p")
  case True
  let ?d = "active_threshold p - length (sp ! k)"
  note pc = partition_class [OF part k]
  have 1: "?d \<le> length (nsp ! k)"
    using pc(9) at by simp
  have 3: "set (nsp ! k) \<subseteq> set (hl @ class_block p k)"
    using pc(6) by auto
  have 4: "\<forall>n \<in> set (nsp ! k). n < length (potentiate out)"
    using pc(6) class_block_bound [OF _ k] len by (auto simp: flags_len_def)
  from potentiate_loop_draws [OF 1 pc(4) 3 4, of rng] obtain xs' where
    loop: "potentiate_loop ?d (hl @ class_block p k, nsp ! k, out, rng) =
       (None, fold remove1 (draws ?d (nsp ! k) rng) (hl @ class_block p k), xs',
        out\<lparr>potentiate := set_flags (draws ?d (nsp ! k) rng) (potentiate out)\<rparr>,
        drop_draws ?d rng)"
    by blast
  show ?thesis
    using True pc(1,2) loop
    by (simp add: markers_step_def list_getitem_def Let_def class_draws_def draw_count_def)
next
  case False
  note pc = partition_class [OF part k]
  from False have "active_threshold p - length (sp ! k) = 0" by simp
  then show ?thesis
    using False pc(1,2)
    by (simp add: markers_step_def list_getitem_def Let_def class_draws_def draw_count_def)
qed

lemma markers_step_other:
  assumes part: "class_partition p sp nsp" and k: "k < class_amount p"
    and ne: "k \<noteq> label"
    and len: "flags_len (class_amount p * class_size p) out"
  shows "markers_step p label sp nsp k (hl, out, rng) =
           (None, hl, out\<lparr>depress := set_flags (class_draws p label sp nsp k rng) (depress out)\<rparr>,
            drop_draws (draw_count p label sp k) rng)"
proof (cases "length (sp ! k) > inactive_threshold p")
  case True
  let ?d = "length (sp ! k) - inactive_threshold p"
  note pc = partition_class [OF part k]
  have 1: "?d \<le> length (sp ! k)" by simp
  have 3: "\<forall>n \<in> set (sp ! k). n < length (depress out)"
    using pc(5) class_block_bound [OF _ k] len by (auto simp: flags_len_def)
  from depress_loop_draws [OF 1 pc(3) 3, of rng] obtain xs' where
    loop: "depress_loop ?d (sp ! k, out, rng) =
       (None, xs', out\<lparr>depress := set_flags (draws ?d (sp ! k) rng) (depress out)\<rparr>,
        drop_draws ?d rng)"
    by blast
  show ?thesis
    using True ne pc(1,2) loop
    by (simp add: markers_step_def list_getitem_def Let_def class_draws_def draw_count_def)
next
  case False
  note pc = partition_class [OF part k]
  from False have "length (sp ! k) - inactive_threshold p = 0" by simp
  then show ?thesis
    using False ne pc(1,2)
    by (simp add: markers_step_def list_getitem_def Let_def class_draws_def draw_count_def)
qed

lemma draws_until_Cons:
  "draws_until p label sp (c # rest) k =
     (if c = k then 0 else draw_count p label sp c + draws_until p label sp rest k)"
  by (simp add: draws_until_def)

lemma draws_until_upt:
  assumes "k < n"
  shows "draws_until p label sp [0..<n] k = draws_before p label sp k"
proof -
  have "[0..<n] = [0..<k] @ k # [Suc k..<n]"
    using assms by (metis le_add1 less_imp_add_positive upt_add_eq_append upt_conv_Cons plus_nat.add_0)
  moreover have "takeWhile (\<lambda>c. c \<noteq> k) ([0..<k] @ k # [Suc k..<n]) = [0..<k]"
    by (subst takeWhile_append2) auto
  ultimately show ?thesis
    by (simp add: draws_until_def draws_before_def)
qed

lemma loop_effect_Nil:
  "flags_len (class_amount p * class_size p) out
     \<Longrightarrow> loop_effect p label sp nsp [] hl out rng hl out rng"
  unfolding loop_effect_def by simp

lemma loop_effect_target:
  assumes notin: "c \<notin> set rest"
    and ih: "loop_effect p c sp nsp rest
               (fold remove1 (class_draws p c sp nsp c rng) (hl @ class_block p c))
               (out\<lparr>potentiate := set_flags (class_draws p c sp nsp c rng) (potentiate out)\<rparr>)
               (drop_draws (draw_count p c sp c) rng) hl' out' rng'"
  shows "loop_effect p c sp nsp (c # rest) hl out rng hl' out' rng'"
proof -
  let ?N = "class_amount p * class_size p"
  let ?pk = "class_draws p c sp nsp c rng"
  let ?out1 = "out\<lparr>potentiate := set_flags ?pk (potentiate out)\<rparr>"
  let ?rng1 = "drop_draws (draw_count p c sp c) rng"
  have d1: "depress ?out1 = depress out" "hold ?out1 = hold out"
    "potentiate ?out1 = set_flags ?pk (potentiate out)"
    by simp_all
  from ih notin have
    j1: "flags_len ?N out'" and j2: "hold out' = hold ?out1"
    and j3: "rng' = drop_draws (sum_list (map (draw_count p c sp) rest)) ?rng1"
    and j4: "potentiate out' = potentiate ?out1"
    and j5: "hl' = fold remove1 ?pk (hl @ class_block p c)"
    and j6: "\<forall>n < ?N. (\<forall>k \<in> set rest. k \<noteq> c \<longrightarrow> n \<notin> set (class_block p k))
            \<longrightarrow> depress out' ! n = depress ?out1 ! n"
    and j7: "\<forall>k \<in> set rest. k \<noteq> c \<longrightarrow>
            (\<forall>n \<in> set (class_block p k).
               depress out' ! n =
                 (if n \<in> set (class_draws p c sp nsp k
                                 (drop_draws (draws_until p c sp rest k) ?rng1))
                  then 1 else depress ?out1 ! n))"
    unfolding loop_effect_def by (simp_all only: if_False) blast+
  have g2: "hold out' = hold out" using j2 by (simp only: d1)
  have g3: "rng' = drop_draws (sum_list (map (draw_count p c sp) (c # rest))) rng"
    using j3 by (simp add: drop_draws_add)
  have g4: "potentiate out' =
          (if c \<in> set (c # rest)
           then set_flags (class_draws p c sp nsp c
                             (drop_draws (draws_until p c sp (c # rest) c) rng))
                  (potentiate out)
           else potentiate out)"
    using j4 by (simp add: draws_until_Cons)
  have g5: "hl' =
          (if c \<in> set (c # rest)
           then fold remove1 (class_draws p c sp nsp c
                                (drop_draws (draws_until p c sp (c # rest) c) rng))
                  (hl @ class_block p c)
           else hl)"
    using j5 by (simp add: draws_until_Cons)
  have g6: "\<forall>n < ?N. (\<forall>k \<in> set (c # rest). k \<noteq> c \<longrightarrow> n \<notin> set (class_block p k))
            \<longrightarrow> depress out' ! n = depress out ! n"
    using j6 by (simp only: d1) simp
  have g7: "\<forall>k \<in> set (c # rest). k \<noteq> c \<longrightarrow>
            (\<forall>n \<in> set (class_block p k).
               depress out' ! n =
                 (if n \<in> set (class_draws p c sp nsp k
                                 (drop_draws (draws_until p c sp (c # rest) k) rng))
                  then 1 else depress out ! n))"
  proof (intro ballI impI)
    fix k n assume k: "k \<in> set (c # rest)" "k \<noteq> c" and n: "n \<in> set (class_block p k)"
    then have kr: "k \<in> set rest" by simp
    have "drop_draws (draws_until p c sp rest k) ?rng1
          = drop_draws (draws_until p c sp (c # rest) k) rng"
      using k(2) by (simp add: drop_draws_add draws_until_Cons)
    with j7 kr k(2) n show "depress out' ! n =
                 (if n \<in> set (class_draws p c sp nsp k
                                 (drop_draws (draws_until p c sp (c # rest) k) rng))
                  then 1 else depress out ! n)"
      by (simp only: d1) metis
  qed
  from j1 g2 g3 g4 g5 g6 g7 show ?thesis
    unfolding loop_effect_def by (intro conjI)
qed

lemma loop_effect_other:
  assumes part: "class_partition p sp nsp" and c: "c < class_amount p"
    and at: "active_threshold p \<le> class_size p"
    and ne: "c \<noteq> label"
    and notin: "c \<notin> set rest"
    and rest: "\<forall>k \<in> set rest. k < class_amount p"
    and len: "flags_len (class_amount p * class_size p) out"
    and ih: "loop_effect p label sp nsp rest hl
               (out\<lparr>depress := set_flags (class_draws p label sp nsp c rng) (depress out)\<rparr>)
               (drop_draws (draw_count p label sp c) rng) hl' out' rng'"
  shows "loop_effect p label sp nsp (c # rest) hl out rng hl' out' rng'"
proof -
  let ?N = "class_amount p * class_size p"
  let ?dc = "class_draws p label sp nsp c rng"
  let ?out1 = "out\<lparr>depress := set_flags ?dc (depress out)\<rparr>"
  let ?rng1 = "drop_draws (draw_count p label sp c) rng"
  have dlen: "length (depress out) = ?N"
    using len by (simp add: flags_len_def)
  have out1: "\<And>n. n < ?N \<Longrightarrow> depress ?out1 ! n = (if n \<in> set ?dc then 1 else depress out ! n)"
    using dlen by (simp add: nth_set_flags)
  have dc_block: "set ?dc \<subseteq> set (class_block p c)"
    using class_draws_props(6) [OF part c at] .
  have d1: "hold ?out1 = hold out" "potentiate ?out1 = potentiate out"
    by simp_all
  from ih have
    j1: "flags_len ?N out'" and j2: "hold out' = hold ?out1"
    and j3: "rng' = drop_draws (sum_list (map (draw_count p label sp) rest)) ?rng1"
    and j4: "potentiate out' =
          (if label \<in> set rest
           then set_flags (class_draws p label sp nsp label
                             (drop_draws (draws_until p label sp rest label) ?rng1))
                  (potentiate ?out1)
           else potentiate ?out1)"
    and j5: "hl' =
          (if label \<in> set rest
           then fold remove1 (class_draws p label sp nsp label
                                (drop_draws (draws_until p label sp rest label) ?rng1))
                  (hl @ class_block p label)
           else hl)"
    and j6: "\<forall>n < ?N. (\<forall>k \<in> set rest. k \<noteq> label \<longrightarrow> n \<notin> set (class_block p k))
            \<longrightarrow> depress out' ! n = depress ?out1 ! n"
    and j7: "\<forall>k \<in> set rest. k \<noteq> label \<longrightarrow>
            (\<forall>n \<in> set (class_block p k).
               depress out' ! n =
                 (if n \<in> set (class_draws p label sp nsp k
                                 (drop_draws (draws_until p label sp rest k) ?rng1))
                  then 1 else depress ?out1 ! n))"
    unfolding loop_effect_def by blast+
  have shift: "\<And>k. k \<noteq> c \<Longrightarrow> drop_draws (draws_until p label sp rest k) ?rng1
          = drop_draws (draws_until p label sp (c # rest) k) rng"
    by (simp add: drop_draws_add draws_until_Cons)
  have g2: "hold out' = hold out" using j2 by (simp only: d1)
  have g3: "rng' = drop_draws (sum_list (map (draw_count p label sp) (c # rest))) rng"
    using j3 by (simp add: drop_draws_add)
  have g4: "potentiate out' =
          (if label \<in> set (c # rest)
           then set_flags (class_draws p label sp nsp label
                             (drop_draws (draws_until p label sp (c # rest) label) rng))
                  (potentiate out)
           else potentiate out)"
    using j4 ne shift [of label] by (simp only: d1) simp
  have g5: "hl' =
          (if label \<in> set (c # rest)
           then fold remove1 (class_draws p label sp nsp label
                                (drop_draws (draws_until p label sp (c # rest) label) rng))
                  (hl @ class_block p label)
           else hl)"
    using j5 ne shift [of label] by simp
  have g6: "\<forall>n < ?N. (\<forall>k \<in> set (c # rest). k \<noteq> label \<longrightarrow> n \<notin> set (class_block p k))
            \<longrightarrow> depress out' ! n = depress out ! n"
  proof (intro allI impI)
    fix n assume n: "n < ?N"
      and fr: "\<forall>k \<in> set (c # rest). k \<noteq> label \<longrightarrow> n \<notin> set (class_block p k)"
    from fr ne have "n \<notin> set (class_block p c)" by simp
    with dc_block have "n \<notin> set ?dc" by blast
    moreover from fr j6 n have "depress out' ! n = depress ?out1 ! n" by simp
    ultimately show "depress out' ! n = depress out ! n"
      using out1 [OF n] by simp
  qed
  have g7: "\<forall>k \<in> set (c # rest). k \<noteq> label \<longrightarrow>
            (\<forall>n \<in> set (class_block p k).
               depress out' ! n =
                 (if n \<in> set (class_draws p label sp nsp k
                                 (drop_draws (draws_until p label sp (c # rest) k) rng))
                  then 1 else depress out ! n))"
  proof (intro ballI impI)
    fix k n assume k: "k \<in> set (c # rest)" and kl: "k \<noteq> label"
      and nb: "n \<in> set (class_block p k)"
    show "depress out' ! n =
                 (if n \<in> set (class_draws p label sp nsp k
                                 (drop_draws (draws_until p label sp (c # rest) k) rng))
                  then 1 else depress out ! n)"
    proof (cases "k = c")
      case True
      from nb True have n: "n < ?N" using class_block_bound c by blast
      have "\<forall>k' \<in> set rest. k' \<noteq> label \<longrightarrow> n \<notin> set (class_block p k')"
        using nb True notin class_block_disjoint by blast
      with j6 n have "depress out' ! n = depress ?out1 ! n" by simp
      with out1 [OF n] True show ?thesis
        by (simp add: draws_until_Cons)
    next
      case False
      with k have kr: "k \<in> set rest" by simp
      have "n \<notin> set (class_block p c)"
        using nb False class_block_disjoint by blast
      with dc_block have nd: "n \<notin> set ?dc" by blast
      have "n < ?N"
        using nb kr rest class_block_bound by blast
      with out1 nd have "depress ?out1 ! n = depress out ! n" by simp
      with j7 kr kl nb shift [OF False] show ?thesis by simp
    qed
  qed
  from j1 g2 g3 g4 g5 g6 g7 show ?thesis
    unfolding loop_effect_def by (intro conjI)
qed

lemma markers_loop_effect:
  assumes part: "class_partition p sp nsp"
    and at: "active_threshold p \<le> class_size p"
  shows "distinct cids \<Longrightarrow> \<forall>k \<in> set cids. k < class_amount p
    \<Longrightarrow> flags_len (class_amount p * class_size p) out
    \<Longrightarrow> \<exists>hl' out' rng'. markers_loop p label sp nsp cids (hl, out, rng) = (None, hl', out', rng')
          \<and> loop_effect p label sp nsp cids hl out rng hl' out' rng'"
proof (induction cids arbitrary: hl out rng)
  case Nil
  then show ?case by (simp add: loop_effect_Nil)
next
  case (Cons c rest)
  let ?N = "class_amount p * class_size p"
  from Cons.prems have c: "c < class_amount p" and notin: "c \<notin> set rest"
    and drest: "distinct rest" and rest: "\<forall>k \<in> set rest. k < class_amount p"
    by simp_all
  show ?case
  proof (cases "c = label")
    case True
    let ?pk = "class_draws p c sp nsp c rng"
    let ?out1 = "out\<lparr>potentiate := set_flags ?pk (potentiate out)\<rparr>"
    let ?hl1 = "fold remove1 ?pk (hl @ class_block p c)"
    let ?rng1 = "drop_draws (draw_count p c sp c) rng"
    have step: "markers_step p c sp nsp c (hl, out, rng) = (None, ?hl1, ?out1, ?rng1)"
      using markers_step_target [OF part c at Cons.prems(3)] .
    have len1: "flags_len ?N ?out1"
      using Cons.prems(3) by (simp add: flags_len_def)
    from Cons.IH [OF drest rest len1, of ?hl1 ?rng1]
    obtain hl' out' rng' where
      loop: "markers_loop p label sp nsp rest (?hl1, ?out1, ?rng1) = (None, hl', out', rng')"
      and eff: "loop_effect p label sp nsp rest ?hl1 ?out1 ?rng1 hl' out' rng'"
      by blast
    have "markers_loop p label sp nsp (c # rest) (hl, out, rng) = (None, hl', out', rng')"
      using step loop True by simp
    moreover have "loop_effect p label sp nsp (c # rest) hl out rng hl' out' rng'"
      using loop_effect_target [OF notin] eff True by simp
    ultimately show ?thesis by blast
  next
    case False
    let ?dc = "class_draws p label sp nsp c rng"
    let ?out1 = "out\<lparr>depress := set_flags ?dc (depress out)\<rparr>"
    let ?rng1 = "drop_draws (draw_count p label sp c) rng"
    have step: "markers_step p label sp nsp c (hl, out, rng) = (None, hl, ?out1, ?rng1)"
      using markers_step_other [OF part c False Cons.prems(3)] .
    have len1: "flags_len ?N ?out1"
      using Cons.prems(3) by (simp add: flags_len_def)
    from Cons.IH [OF drest rest len1, of hl ?rng1]
    obtain hl' out' rng' where
      loop: "markers_loop p label sp nsp rest (hl, ?out1, ?rng1) = (None, hl', out', rng')"
      and eff: "loop_effect p label sp nsp rest hl ?out1 ?rng1 hl' out' rng'"
      by blast
    have "markers_loop p label sp nsp (c # rest) (hl, out, rng) = (None, hl', out', rng')"
      using step loop by simp
    moreover have "loop_effect p label sp nsp (c # rest) hl out rng hl' out' rng'"
      using loop_effect_other [OF part c at False notin rest Cons.prems(3) eff] .
    ultimately show ?thesis by blast
  qed
qed

lemma set_markers_effect:
  assumes part: "class_partition p sp nsp"
    and at: "active_threshold p \<le> class_size p"
    and len: "flags_len (class_amount p * class_size p) out"
  shows "\<exists>out' rng'. set_markers p img sp nsp (out, rng) = (None, out', rng')
     \<and> potentiate out' =
         (if class' img < class_amount p
          then set_flags (class_draws p (class' img) sp nsp (class' img)
                            (drop_draws (draws_before p (class' img) sp (class' img)) rng))
                 (potentiate out)
          else potentiate out)
     \<and> hold out' =
         (if class' img < class_amount p
          then set_flags
                 (fold remove1 (class_draws p (class' img) sp nsp (class' img)
                                  (drop_draws (draws_before p (class' img) sp (class' img)) rng))
                    (class_block p (class' img)))
                 (hold out)
          else hold out)
     \<and> (\<forall>k < class_amount p. k \<noteq> class' img \<longrightarrow>
            (\<forall>n \<in> set (class_block p k).
               depress out' ! n =
                 (if n \<in> set (class_draws p (class' img) sp nsp k
                                 (drop_draws (draws_before p (class' img) sp k) rng))
                  then 1 else depress out ! n)))"
proof -
  let ?N = "class_amount p * class_size p"
  let ?c = "class' img"
  let ?cids = "[0..<class_amount p]"
  let ?pk = "class_draws p ?c sp nsp ?c (drop_draws (draws_before p ?c sp ?c) rng)"
  have "distinct ?cids" "\<forall>k \<in> set ?cids. k < class_amount p"
    by simp_all
  from markers_loop_effect [OF part at this len, of ?c "[]" rng]
  obtain hl' out1 rng1 where
    loop: "markers_loop p ?c sp nsp ?cids ([], out, rng) = (None, hl', out1, rng1)"
    and eff: "loop_effect p ?c sp nsp ?cids [] out rng hl' out1 rng1"
    by blast
  from eff have e1: "flags_len ?N out1" and e2: "hold out1 = hold out"
    and e4: "potentiate out1 =
          (if ?c \<in> set ?cids
           then set_flags (class_draws p ?c sp nsp ?c
                             (drop_draws (draws_until p ?c sp ?cids ?c) rng))
                  (potentiate out)
           else potentiate out)"
    and e5: "hl' =
          (if ?c \<in> set ?cids
           then fold remove1 (class_draws p ?c sp nsp ?c
                                (drop_draws (draws_until p ?c sp ?cids ?c) rng))
                  ([] @ class_block p ?c)
           else [])"
    and e7: "\<forall>k \<in> set ?cids. k \<noteq> ?c \<longrightarrow>
            (\<forall>n \<in> set (class_block p k).
               depress out1 ! n =
                 (if n \<in> set (class_draws p ?c sp nsp k
                                 (drop_draws (draws_until p ?c sp ?cids k) rng))
                  then 1 else depress out ! n))"
    unfolding loop_effect_def by blast+
  have pot: "potentiate out1 = (if ?c < class_amount p then set_flags ?pk (potentiate out)
                               else potentiate out)"
    using e4 by (simp add: draws_until_upt)
  have hl: "hl' = (if ?c < class_amount p then fold remove1 ?pk (class_block p ?c) else [])"
    using e5 by (simp add: draws_until_upt)
  have hl_bound: "\<forall>n \<in> set hl'. n < length (hold out1)"
  proof (cases "?c < class_amount p")
    case True
    with hl have "hl' = fold remove1 ?pk (class_block p ?c)" by simp
    then have "set hl' \<subseteq> set (class_block p ?c)"
      using fold_remove1_set [OF distinct_class_block, of ?pk p ?c] by auto
    with class_block_bound [OF _ True] e1 show ?thesis
      by (auto simp: flags_len_def)
  next
    case False
    with hl show ?thesis by simp
  qed
  let ?out2 = "out1\<lparr>hold := set_flags hl' (hold out1)\<rparr>"
  have sm: "set_markers p img sp nsp (out, rng) = (None, ?out2, rng1)"
    using loop hold_loop_flags [OF hl_bound] by (simp add: set_markers_def)
  have p2: "potentiate ?out2 = (if ?c < class_amount p then set_flags ?pk (potentiate out)
                               else potentiate out)"
    using pot by simp
  have h2: "hold ?out2 = (if ?c < class_amount p
                          then set_flags (fold remove1 ?pk (class_block p ?c)) (hold out)
                          else hold out)"
    using hl e2 by simp
  have d2: "\<forall>k < class_amount p. k \<noteq> ?c \<longrightarrow>
            (\<forall>n \<in> set (class_block p k).
               depress ?out2 ! n =
                 (if n \<in> set (class_draws p ?c sp nsp k (drop_draws (draws_before p ?c sp k) rng))
                  then 1 else depress out ! n))"
    using e7 by (simp add: draws_until_upt)
  from sm p2 h2 d2 show ?thesis by blast
qed

lemma flags_reset_len: "flags_reset p out \<Longrightarrow> flags_len (class_amount p * class_size p) out"
  by (simp add: flags_reset_def flags_len_def)

lemma finite_index_seqs: "finite (index_seqs n k)"
proof -
  have v: "\<And>idx m. valid_indices m idx \<Longrightarrow> set idx \<subseteq> {..<m}"
  proof -
    fix idx m show "valid_indices m idx \<Longrightarrow> set idx \<subseteq> {..<m}"
    proof (induction idx arbitrary: m)
      case Nil
      show ?case by simp
    next
      case (Cons i idx)
      then have "i < m" "set idx \<subseteq> {..<m - 1}" by simp_all
      then show ?case by auto
    qed
  qed
  have "index_seqs n k \<subseteq> {idx. set idx \<subseteq> {..<n} \<and> length idx = k}"
    using v by (auto simp: index_seqs_def)
  then show ?thesis
    by (rule finite_subset) (simp add: finite_lists_length_eq)
qed

lemma card_index_seqs:
  "k \<le> n \<Longrightarrow> card (index_seqs n k) * fact (n - k) = fact n"
proof (induction k arbitrary: n)
  case 0
  have "index_seqs n 0 = {[]}"
    by (auto simp: index_seqs_def)
  then show ?case by simp
next
  case (Suc k)
  then have n: "0 < n" "k \<le> n - 1" by simp_all
  have eq: "index_seqs n (Suc k) = (\<lambda>(i, idx). i # idx) ` ({..<n} \<times> index_seqs (n - 1) k)"
  proof (rule set_eqI)
    fix l
    show "l \<in> index_seqs n (Suc k)
          \<longleftrightarrow> l \<in> (\<lambda>(i, idx). i # idx) ` ({..<n} \<times> index_seqs (n - 1) k)"
      by (cases l) (auto simp: index_seqs_def)
  qed
  have "inj_on (\<lambda>(i, idx). i # idx) ({..<n} \<times> index_seqs (n - 1) k)"
    by (auto simp: inj_on_def)
  with eq have "card (index_seqs n (Suc k)) = card ({..<n} \<times> index_seqs (n - 1) k)"
    by (simp add: card_image)
  also have "\<dots> = n * card (index_seqs (n - 1) k)"
    by (simp add: card_cartesian_product)
  finally have "card (index_seqs n (Suc k)) * fact (n - Suc k)
                = n * (card (index_seqs (n - 1) k) * fact (n - 1 - k))"
    by simp
  also have "\<dots> = n * fact (n - 1)"
    using Suc.IH [OF n(2)] by simp
  also have "\<dots> = fact n"
    using n(1) by (cases n) simp_all
  finally show ?case .
qed

lemma selections_nonempty:
  assumes "distinct xs" "S \<subseteq> set xs" "card S = k"
  shows "\<exists>idx. length idx = k \<and> valid_indices (length xs) idx \<and> set (picks idx xs) = S"
proof -
  have "card (selections xs k S) = fact k"
    using assms by (rule card_selections)
  then have "selections xs k S \<noteq> {}"
    by (metis card.empty fact_nonzero)
  then show ?thesis
    by (auto simp: selections_def index_seqs_def)
qed

lemma stream_with_draws:
  assumes "valid_indices n idx"
  shows "draw_indices (length idx) n
           (drop_draws m (\<lambda>i. if i < m then 0 else stream_of idx (i - m))) = idx"
proof -
  have "drop_draws m (\<lambda>i. if i < m then 0 else stream_of idx (i - m)) = stream_of idx"
    by (rule ext) (simp add: drop_draws_def)
  with draw_indices_stream_of [OF assms] show ?thesis by simp
qed

lemma class_draws_picks:
  assumes part: "class_partition p sp nsp" and k: "k < class_amount p"
    and at: "active_threshold p \<le> class_size p"
  shows "class_draws p label sp nsp k rng =
           picks (draw_indices (draw_count p label sp k)
                    (length (if k = label then nsp ! k else sp ! k)) rng)
             (if k = label then nsp ! k else sp ! k)"
  using draws_picks [OF class_draws_props(1) [OF part k at, of label], of rng]
  by (simp add: class_draws_def)

lemma brawn_parameters_thresholds:
  "active_threshold brawn_parameters \<le> class_size brawn_parameters"
  "0 < class_amount brawn_parameters"
  by (simp_all add: brawn_parameters_def)

lemma marker_partition:
  "class_partition marker_parameters [[0], [3, 5]] [[1, 2], [4]]"
  by (auto simp: class_partition_def marker_parameters_def brawn_parameters_def class_block_def
      less_Suc_eq numeral_2_eq_2 upt_rec)

lemma marker_reset: "flags_reset marker_parameters marker_state"
  by (simp add: flags_reset_def marker_parameters_def marker_state_def numeral_eq_Suc)

lemma class_member_ids_filter:
  assumes "\<forall>i \<in> set ids. cid * cs + i < length spikes"
  shows "class_member_ids spikes cs cid ids (s, n) =
           Inr (s @ filter (\<lambda>m. spikes ! m > 0) (map (\<lambda>i. cid * cs + i) ids),
                n @ filter (\<lambda>m. \<not> spikes ! m > 0) (map (\<lambda>i. cid * cs + i) ids))"
  using assms
proof (induction ids arbitrary: s n)
  case Nil
  show ?case by simp
next
  case (Cons i ids)
  then show ?case
    by (simp add: list_getitem_def Let_def)
qed

lemma class_spike_ids_map:
  assumes "\<forall>c \<in> set cids. \<forall>i < cs. c * cs + i < length spikes"
  shows "class_spike_ids spikes cs cids (s, n) =
           Inr (s @ map (\<lambda>c. filter (\<lambda>m. spikes ! m > 0) (map (\<lambda>i. c * cs + i) [0..<cs])) cids,
                n @ map (\<lambda>c. filter (\<lambda>m. \<not> spikes ! m > 0) (map (\<lambda>i. c * cs + i) [0..<cs])) cids)"
  using assms
proof (induction cids arbitrary: s n)
  case Nil
  show ?case by simp
next
  case (Cons c cids)
  have "\<forall>i \<in> set [0..<cs]. c * cs + i < length spikes"
    using Cons.prems by simp
  from class_member_ids_filter [OF this, of "[]" "[]"] Cons show ?case
    by simp
qed

lemma get_class_spike_ids_partition:
  assumes "class_amount p * class_size p \<le> length spikes"
  shows "\<exists>sp nsp. get_class_spike_ids spikes (class_size p) (class_amount p) = Inr (sp, nsp)
           \<and> class_partition p sp nsp"
proof -
  let ?sp = "map (\<lambda>c. filter (\<lambda>m. spikes ! m > 0) (class_block p c)) [0..<class_amount p]"
  let ?nsp = "map (\<lambda>c. filter (\<lambda>m. \<not> spikes ! m > 0) (class_block p c)) [0..<class_amount p]"
  have "\<forall>c \<in> set [0..<class_amount p]. \<forall>i < class_size p. c * class_size p + i < length spikes"
  proof (intro ballI allI impI)
    fix c i assume "c \<in> set [0..<class_amount p]" "i < class_size p"
    then have "c * class_size p + i \<in> set (class_block p c)" "c < class_amount p"
      by (simp_all add: set_class_block)
    then have "c * class_size p + i < class_amount p * class_size p"
      by (rule class_block_bound)
    with assms show "c * class_size p + i < length spikes" by simp
  qed
  from class_spike_ids_map [OF this, of "[]" "[]"]
  have "get_class_spike_ids spikes (class_size p) (class_amount p) = Inr (?sp, ?nsp)"
    by (simp add: get_class_spike_ids_def class_block_def)
  moreover have "class_partition p ?sp ?nsp"
    unfolding class_partition_def
    using distinct_class_block by (auto simp: distinct_class_block)
  ultimately show ?thesis by blast
qed

lemma marker_run:
  "(case set_markers marker_parameters marker_image
           [[0], [3, 5]] [[1, 2], [4]] (marker_state, \<lambda>i. i) of
      (err, out', rng') \<Rightarrow> (err, potentiate out', depress out', hold out'))
   = (None, [0, 1, 0, 0, 0, 0], [0, 0, 0, 1, 0, 1], [1, 0, 1, 0, 0, 0])"
  by code_simp

lemma marker_ids:
  "get_class_spike_ids [2, 0, 0, 1, 0, 3] (class_size marker_parameters)
     (class_amount marker_parameters) = Inr ([[0], [3, 5]], [[1, 2], [4]])"
  by code_simp

lemma target_flags:
  assumes part: "class_partition p sp nsp"
    and c: "class' img < class_amount p"
    and at: "active_threshold p \<le> class_size p"
    and reset: "flags_reset p out"
  shows "\<exists>out' rng'. set_markers p img sp nsp (out, rng) = (None, out', rng')
     \<and> (\<forall>n \<in> set (class_block p (class' img)).
           potentiate out' ! n =
             (if n \<in> set (picks (draw_indices (active_threshold p - length (sp ! class' img))
                                    (length (nsp ! class' img))
                                    (drop_draws (draws_before p (class' img) sp (class' img)) rng))
                             (nsp ! class' img))
              then 1 else 0)
           \<and> hold out' ! n =
             (if n \<in> set (picks (draw_indices (active_threshold p - length (sp ! class' img))
                                    (length (nsp ! class' img))
                                    (drop_draws (draws_before p (class' img) sp (class' img)) rng))
                             (nsp ! class' img))
              then 0 else 1))"
proof -
  let ?N = "class_amount p * class_size p"
  let ?c = "class' img"
  let ?block = "class_block p ?c"
  let ?r = "drop_draws (draws_before p ?c sp ?c) rng"
  let ?pk = "class_draws p ?c sp nsp ?c ?r"
  from set_markers_effect [OF part at flags_reset_len [OF reset], of img rng] c
  obtain out' rng' where
    sm: "set_markers p img sp nsp (out, rng) = (None, out', rng')"
    and pot: "potentiate out' = set_flags ?pk (potentiate out)"
    and hld: "hold out' = set_flags (fold remove1 ?pk ?block) (hold out)"
    by (simp only: if_True) blast
  have pk: "?pk = picks (draw_indices (active_threshold p - length (sp ! ?c))
                          (length (nsp ! ?c)) ?r) (nsp ! ?c)"
    using class_draws_picks [OF part c at, of ?c ?r] by (simp add: draw_count_def)
  have rem: "set (fold remove1 ?pk ?block) = set ?block - set ?pk"
    using fold_remove1_set [OF distinct_class_block] by blast
  have "\<forall>n \<in> set ?block.
            potentiate out' ! n = (if n \<in> set ?pk then 1 else 0)
            \<and> hold out' ! n = (if n \<in> set ?pk then 0 else 1)"
  proof
    fix n assume nb: "n \<in> set ?block"
    then have n: "n < ?N" using class_block_bound c by blast
    then have "potentiate out' ! n = (if n \<in> set ?pk then 1 else 0)"
      using reset by (simp add: pot flags_reset_def nth_set_flags)
    moreover have "hold out' ! n = (if n \<in> set ?pk then 0 else 1)"
      using reset n nb by (simp add: hld flags_reset_def nth_set_flags rem)
    ultimately show "potentiate out' ! n = (if n \<in> set ?pk then 1 else 0)
            \<and> hold out' ! n = (if n \<in> set ?pk then 0 else 1)" ..
  qed
  with sm show ?thesis unfolding pk by blast
qed

lemma other_flags:
  assumes part: "class_partition p sp nsp"
    and at: "active_threshold p \<le> class_size p"
    and reset: "flags_reset p out"
    and k: "k < class_amount p" and kc: "k \<noteq> class' img"
  shows "\<exists>out' rng'. set_markers p img sp nsp (out, rng) = (None, out', rng')
     \<and> (\<forall>n \<in> set (class_block p k).
           depress out' ! n =
             (if n \<in> set (picks (draw_indices (length (sp ! k) - inactive_threshold p)
                                    (length (sp ! k))
                                    (drop_draws (draws_before p (class' img) sp k) rng))
                             (sp ! k))
              then 1 else 0)
           \<and> potentiate out' ! n = 0 \<and> hold out' ! n = 0)"
proof -
  let ?N = "class_amount p * class_size p"
  let ?c = "class' img"
  let ?r = "drop_draws (draws_before p ?c sp k) rng"
  let ?dk = "class_draws p ?c sp nsp k ?r"
  let ?pk = "class_draws p ?c sp nsp ?c (drop_draws (draws_before p ?c sp ?c) rng)"
  from set_markers_effect [OF part at flags_reset_len [OF reset], of img rng]
  obtain out' rng' where
    sm: "set_markers p img sp nsp (out, rng) = (None, out', rng')"
    and pot: "potentiate out' =
         (if ?c < class_amount p then set_flags ?pk (potentiate out) else potentiate out)"
    and hld: "hold out' =
         (if ?c < class_amount p
          then set_flags (fold remove1 ?pk (class_block p ?c)) (hold out)
          else hold out)"
    and dep: "\<forall>k < class_amount p. k \<noteq> ?c \<longrightarrow>
            (\<forall>n \<in> set (class_block p k).
               depress out' ! n =
                 (if n \<in> set (class_draws p ?c sp nsp k (drop_draws (draws_before p ?c sp k) rng))
                  then 1 else depress out ! n))"
    by blast
  have dk: "?dk = picks (draw_indices (length (sp ! k) - inactive_threshold p)
                          (length (sp ! k)) ?r) (sp ! k)"
    using class_draws_picks [OF part k at, of ?c ?r] kc by (simp add: draw_count_def)
  have "\<forall>n \<in> set (class_block p k).
            depress out' ! n = (if n \<in> set ?dk then 1 else 0)
            \<and> potentiate out' ! n = 0 \<and> hold out' ! n = 0"
  proof
    fix n assume nb: "n \<in> set (class_block p k)"
    then have n: "n < ?N" using class_block_bound k by blast
    have nc: "n \<notin> set (class_block p ?c)"
      using nb kc class_block_disjoint by blast
    have p0: "potentiate out' ! n = 0"
    proof (cases "?c < class_amount p")
      case True
      have "set ?pk \<subseteq> set (class_block p ?c)"
        using class_draws_props(6) [OF part True at] .
      with nc have "n \<notin> set ?pk" by blast
      with True n reset show ?thesis
        by (simp add: pot flags_reset_def nth_set_flags)
    next
      case False
      with n reset show ?thesis by (simp add: pot flags_reset_def)
    qed
    have h0: "hold out' ! n = 0"
    proof (cases "?c < class_amount p")
      case True
      have "set (fold remove1 ?pk (class_block p ?c)) \<subseteq> set (class_block p ?c)"
        using fold_remove1_set [OF distinct_class_block, of ?pk p ?c] by auto
      with nc have "n \<notin> set (fold remove1 ?pk (class_block p ?c))" by blast
      with True n reset show ?thesis
        by (simp add: hld flags_reset_def nth_set_flags)
    next
      case False
      with n reset show ?thesis by (simp add: hld flags_reset_def)
    qed
    have "depress out' ! n = (if n \<in> set ?dk then 1 else 0)"
      using dep k kc nb n reset by (simp add: flags_reset_def)
    with p0 h0 show "depress out' ! n = (if n \<in> set ?dk then 1 else 0)
            \<and> potentiate out' ! n = 0 \<and> hold out' ! n = 0" by simp
  qed
  with sm show ?thesis unfolding dk by blast
qed

text \<open>
  Claim C3.  Let the spiking and non-spiking lists partition the ids of every class,
  let the label \<open>c\<close> be a class, \<open>active_threshold \<le> class_size\<close>, and all markers be
  zero.  Write \<open>xs\<close> for the non-spiking list of class \<open>c\<close>, \<open>d\<close> for
  \<open>active_threshold - #spiking\<close> (zero when the class has at least \<open>active_threshold\<close>
  spiking neurons: the subtraction on naturals stops at zero), \<open>idx\<close> for the indices
  that the \<open>d\<close> calls of \<open>rng.choice\<close> of the round of class \<open>c\<close> draw, and \<open>S\<close> for the
  neurons these indices select from \<open>xs\<close>, each removed once selected.  Then
  \<^item> \<open>_set_markers\<close> returns, and within class \<open>c\<close> \<open>potentiate\<close> is 1 exactly on \<open>S\<close> and
    \<open>hold\<close> is 1 exactly on the other neurons; with at least \<open>active_threshold\<close> spiking
    neurons no neuron of the class gets \<open>potentiate\<close> and every one gets \<open>hold\<close>;
  \<^item> \<open>S\<close> is a set of exactly \<open>d\<close> neurons of \<open>xs\<close>;
  \<^item> the choice is uniform and without replacement: \<open>idx\<close> is one of the
    \<open>|xs|! / (|xs| - d)!\<close> index sequences that \<open>rng.choice\<close> draws with equal
    probability, and every set \<open>T\<close> of \<open>d\<close> neurons of \<open>xs\<close> is selected by exactly \<open>d!\<close>
    of them, whatever \<open>T\<close> is;
  \<^item> every such \<open>T\<close> is the selection of some run of \<open>_set_markers\<close>.
\<close>

theorem target_class_markers:
  assumes "class_partition p spiking_classes non_spiking_classes"
    and "class' img < class_amount p"
    and "active_threshold p \<le> class_size p"
    and "flags_reset p out"
    and "c = class' img"
    and "xs = non_spiking_classes ! c"
    and "d = active_threshold p - length (spiking_classes ! c)"
    and "idx = draw_indices d (length xs) (drop_draws (draws_before p c spiking_classes c) rng)"
    and "S = set (picks idx xs)"
  shows "(\<exists>out' rng'.
            set_markers p img spiking_classes non_spiking_classes (out, rng) = (None, out', rng')
            \<and> (\<forall>n \<in> set (class_block p c).
                  potentiate out' ! n = (if n \<in> S then 1 else 0)
                  \<and> hold out' ! n = (if n \<in> S then 0 else 1))
            \<and> (active_threshold p \<le> length (spiking_classes ! c) \<longrightarrow>
                  (\<forall>n \<in> set (class_block p c). potentiate out' ! n = 0 \<and> hold out' ! n = 1)))
         \<and> S \<subseteq> set xs \<and> card S = d
         \<and> idx \<in> index_seqs (length xs) d
         \<and> card (index_seqs (length xs) d) * fact (length xs - d) = fact (length xs)
         \<and> (\<forall>T. T \<subseteq> set xs \<and> card T = d \<longrightarrow>
               card (selections xs d T) = fact d
               \<and> (\<exists>rng1 out1 rng1'.
                     set_markers p img spiking_classes non_spiking_classes (out, rng1)
                       = (None, out1, rng1')
                     \<and> (\<forall>n \<in> set (class_block p c).
                           potentiate out1 ! n = (if n \<in> T then 1 else 0)
                           \<and> hold out1 ! n = (if n \<in> T then 0 else 1))))"
proof -
  let ?m = "draws_before p c spiking_classes c"
  note part = assms(1) and at = assms(3) and reset = assms(4)
  have cl: "c < class_amount p" using assms(2,5) by simp
  have dx: "distinct xs"
    using partition_class(4) [OF part cl] assms(6) by simp
  have dle: "d \<le> length xs"
    using class_draws_props(1) [OF part cl at, of c] assms(6,7) by (simp add: draw_count_def)
  have flags: "\<And>r. \<exists>out' rng'.
            set_markers p img spiking_classes non_spiking_classes (out, r) = (None, out', rng')
            \<and> (\<forall>n \<in> set (class_block p c).
                  potentiate out' ! n =
                    (if n \<in> set (picks (draw_indices d (length xs) (drop_draws ?m r)) xs)
                     then 1 else 0)
                  \<and> hold out' ! n =
                    (if n \<in> set (picks (draw_indices d (length xs) (drop_draws ?m r)) xs)
                     then 0 else 1))"
    using target_flags [OF part assms(2) at reset] unfolding assms(5,6,7) .
  have valid: "length idx = d" "valid_indices (length xs) idx"
    using draw_indices_valid [OF dle] assms(8) by simp_all
  have g1: "\<exists>out' rng'.
            set_markers p img spiking_classes non_spiking_classes (out, rng) = (None, out', rng')
            \<and> (\<forall>n \<in> set (class_block p c).
                  potentiate out' ! n = (if n \<in> S then 1 else 0)
                  \<and> hold out' ! n = (if n \<in> S then 0 else 1))
            \<and> (active_threshold p \<le> length (spiking_classes ! c) \<longrightarrow>
                  (\<forall>n \<in> set (class_block p c). potentiate out' ! n = 0 \<and> hold out' ! n = 1))"
  proof -
    from flags [of rng] obtain out' rng' where
      sm: "set_markers p img spiking_classes non_spiking_classes (out, rng) = (None, out', rng')"
      and fl: "\<forall>n \<in> set (class_block p c).
                  potentiate out' ! n = (if n \<in> S then 1 else 0)
                  \<and> hold out' ! n = (if n \<in> S then 0 else 1)"
      unfolding assms(8,9) by blast
    have "active_threshold p \<le> length (spiking_classes ! c) \<longrightarrow>
            (\<forall>n \<in> set (class_block p c). potentiate out' ! n = 0 \<and> hold out' ! n = 1)"
    proof
      assume "active_threshold p \<le> length (spiking_classes ! c)"
      then have "d = 0" using assms(7) by simp
      then have "S = {}" using assms(8,9) by simp
      with fl show "\<forall>n \<in> set (class_block p c). potentiate out' ! n = 0 \<and> hold out' ! n = 1"
        by simp
    qed
    with sm fl show ?thesis by blast
  qed
  from picks_props [OF dx valid(2)] valid(1)
  have g2: "S \<subseteq> set xs" and g3: "card S = d"
    unfolding assms(9) by (simp_all add: distinct_card)
  have g4: "idx \<in> index_seqs (length xs) d"
    using valid by (simp add: index_seqs_def)
  have g5: "card (index_seqs (length xs) d) * fact (length xs - d) = fact (length xs)"
    using card_index_seqs [OF dle] .
  have g6: "\<forall>T. T \<subseteq> set xs \<and> card T = d \<longrightarrow>
               card (selections xs d T) = fact d
               \<and> (\<exists>rng1 out1 rng1'.
                     set_markers p img spiking_classes non_spiking_classes (out, rng1)
                       = (None, out1, rng1')
                     \<and> (\<forall>n \<in> set (class_block p c).
                           potentiate out1 ! n = (if n \<in> T then 1 else 0)
                           \<and> hold out1 ! n = (if n \<in> T then 0 else 1)))"
  proof (intro allI impI)
    fix T assume T: "T \<subseteq> set xs \<and> card T = d"
    then have T1: "T \<subseteq> set xs" and T2: "card T = d" by simp_all
    have cs: "card (selections xs d T) = fact d"
      using card_selections [OF dx T1 T2] .
    from selections_nonempty [OF dx T1 T2] obtain idx' where
      i: "length idx' = d" "valid_indices (length xs) idx'" "set (picks idx' xs) = T"
      by blast
    let ?rng1 = "\<lambda>i. if i < ?m then 0 else stream_of idx' (i - ?m)"
    have "draw_indices d (length xs) (drop_draws ?m ?rng1) = idx'"
      using stream_with_draws [OF i(2), of ?m] i(1) by simp
    with flags [of ?rng1] i(3) have "\<exists>out1 rng1'.
                     set_markers p img spiking_classes non_spiking_classes (out, ?rng1)
                       = (None, out1, rng1')
                     \<and> (\<forall>n \<in> set (class_block p c).
                           potentiate out1 ! n = (if n \<in> T then 1 else 0)
                           \<and> hold out1 ! n = (if n \<in> T then 0 else 1))"
      by simp
    then have "\<exists>rng1 out1 rng1'.
                     set_markers p img spiking_classes non_spiking_classes (out, rng1)
                       = (None, out1, rng1')
                     \<and> (\<forall>n \<in> set (class_block p c).
                           potentiate out1 ! n = (if n \<in> T then 1 else 0)
                           \<and> hold out1 ! n = (if n \<in> T then 0 else 1))"
      by (rule exI [of _ ?rng1])
    with cs show "card (selections xs d T) = fact d
               \<and> (\<exists>rng1 out1 rng1'.
                     set_markers p img spiking_classes non_spiking_classes (out, rng1)
                       = (None, out1, rng1')
                     \<and> (\<forall>n \<in> set (class_block p c).
                           potentiate out1 ! n = (if n \<in> T then 1 else 0)
                           \<and> hold out1 ! n = (if n \<in> T then 0 else 1)))" ..
  qed
  from g1 g2 g3 g4 g5 g6 show ?thesis by (intro conjI)
qed

text \<open>
  Claim C4.  Under the same conditions, let \<open>k\<close> be a class other than the label, \<open>xs\<close>
  its spiking list, \<open>d\<close> the number \<open>#spiking - inactive_threshold\<close> (zero when
  \<open>#spiking \<le> inactive_threshold\<close>), \<open>idx\<close> the indices that the \<open>d\<close> calls of \<open>rng.choice\<close>
  of the round of class \<open>k\<close> draw, and \<open>D\<close> the neurons these indices select from \<open>xs\<close>.
  Then \<open>_set_markers\<close> returns, and within class \<open>k\<close> \<open>depress\<close> is 1 exactly on \<open>D\<close> and
  no neuron gets \<open>potentiate\<close> or \<open>hold\<close>; \<open>D\<close> is a set of exactly \<open>d\<close> neurons of \<open>xs\<close>;
  the choice is uniform and without replacement, as for the target class: \<open>idx\<close> is one
  of the \<open>|xs|! / (|xs| - d)!\<close> equally likely index sequences, every set \<open>T\<close> of \<open>d\<close>
  neurons of \<open>xs\<close> is selected by exactly \<open>d!\<close> of them, and every such \<open>T\<close> is the
  selection of some run of \<open>_set_markers\<close>.
\<close>

theorem other_class_markers:
  assumes "class_partition p spiking_classes non_spiking_classes"
    and "active_threshold p \<le> class_size p"
    and "flags_reset p out"
    and "k < class_amount p" and "k \<noteq> class' img"
    and "xs = spiking_classes ! k"
    and "d = length xs - inactive_threshold p"
    and "idx = draw_indices d (length xs)
                 (drop_draws (draws_before p (class' img) spiking_classes k) rng)"
    and "D = set (picks idx xs)"
  shows "(\<exists>out' rng'.
            set_markers p img spiking_classes non_spiking_classes (out, rng) = (None, out', rng')
            \<and> (\<forall>n \<in> set (class_block p k).
                  depress out' ! n = (if n \<in> D then 1 else 0)
                  \<and> potentiate out' ! n = 0 \<and> hold out' ! n = 0)
            \<and> (length xs \<le> inactive_threshold p \<longrightarrow>
                  (\<forall>n \<in> set (class_block p k). depress out' ! n = 0)))
         \<and> D \<subseteq> set xs \<and> card D = d
         \<and> idx \<in> index_seqs (length xs) d
         \<and> card (index_seqs (length xs) d) * fact (length xs - d) = fact (length xs)
         \<and> (\<forall>T. T \<subseteq> set xs \<and> card T = d \<longrightarrow>
               card (selections xs d T) = fact d
               \<and> (\<exists>rng1 out1 rng1'.
                     set_markers p img spiking_classes non_spiking_classes (out, rng1)
                       = (None, out1, rng1')
                     \<and> (\<forall>n \<in> set (class_block p k).
                           depress out1 ! n = (if n \<in> T then 1 else 0)
                           \<and> potentiate out1 ! n = 0 \<and> hold out1 ! n = 0)))"
proof -
  let ?m = "draws_before p (class' img) spiking_classes k"
  note part = assms(1) and at = assms(2) and reset = assms(3)
    and k = assms(4) and kc = assms(5)
  have dx: "distinct xs"
    using partition_class(3) [OF part k] assms(6) by simp
  have dle: "d \<le> length xs"
    using assms(7) by simp
  have flags: "\<And>r. \<exists>out' rng'.
            set_markers p img spiking_classes non_spiking_classes (out, r) = (None, out', rng')
            \<and> (\<forall>n \<in> set (class_block p k).
                  depress out' ! n =
                    (if n \<in> set (picks (draw_indices d (length xs) (drop_draws ?m r)) xs)
                     then 1 else 0)
                  \<and> potentiate out' ! n = 0 \<and> hold out' ! n = 0)"
    using other_flags [OF part at reset k kc] unfolding assms(6,7) .
  have valid: "length idx = d" "valid_indices (length xs) idx"
    using draw_indices_valid [OF dle] assms(8) by simp_all
  have g1: "\<exists>out' rng'.
            set_markers p img spiking_classes non_spiking_classes (out, rng) = (None, out', rng')
            \<and> (\<forall>n \<in> set (class_block p k).
                  depress out' ! n = (if n \<in> D then 1 else 0)
                  \<and> potentiate out' ! n = 0 \<and> hold out' ! n = 0)
            \<and> (length xs \<le> inactive_threshold p \<longrightarrow>
                  (\<forall>n \<in> set (class_block p k). depress out' ! n = 0))"
  proof -
    from flags [of rng] obtain out' rng' where
      sm: "set_markers p img spiking_classes non_spiking_classes (out, rng) = (None, out', rng')"
      and fl: "\<forall>n \<in> set (class_block p k).
                  depress out' ! n = (if n \<in> D then 1 else 0)
                  \<and> potentiate out' ! n = 0 \<and> hold out' ! n = 0"
      unfolding assms(8,9) by blast
    have "length xs \<le> inactive_threshold p \<longrightarrow>
            (\<forall>n \<in> set (class_block p k). depress out' ! n = 0)"
    proof
      assume "length xs \<le> inactive_threshold p"
      then have "d = 0" using assms(7) by simp
      then have "D = {}" using assms(8,9) by simp
      with fl show "\<forall>n \<in> set (class_block p k). depress out' ! n = 0"
        by simp
    qed
    with sm fl show ?thesis by blast
  qed
  from picks_props [OF dx valid(2)] valid(1)
  have g2: "D \<subseteq> set xs" and g3: "card D = d"
    unfolding assms(9) by (simp_all add: distinct_card)
  have g4: "idx \<in> index_seqs (length xs) d"
    using valid by (simp add: index_seqs_def)
  have g5: "card (index_seqs (length xs) d) * fact (length xs - d) = fact (length xs)"
    using card_index_seqs [OF dle] .
  have g6: "\<forall>T. T \<subseteq> set xs \<and> card T = d \<longrightarrow>
               card (selections xs d T) = fact d
               \<and> (\<exists>rng1 out1 rng1'.
                     set_markers p img spiking_classes non_spiking_classes (out, rng1)
                       = (None, out1, rng1')
                     \<and> (\<forall>n \<in> set (class_block p k).
                           depress out1 ! n = (if n \<in> T then 1 else 0)
                           \<and> potentiate out1 ! n = 0 \<and> hold out1 ! n = 0))"
  proof (intro allI impI)
    fix T assume T: "T \<subseteq> set xs \<and> card T = d"
    then have T1: "T \<subseteq> set xs" and T2: "card T = d" by simp_all
    have cs: "card (selections xs d T) = fact d"
      using card_selections [OF dx T1 T2] .
    from selections_nonempty [OF dx T1 T2] obtain idx' where
      i: "length idx' = d" "valid_indices (length xs) idx'" "set (picks idx' xs) = T"
      by blast
    let ?rng1 = "\<lambda>i. if i < ?m then 0 else stream_of idx' (i - ?m)"
    have "draw_indices d (length xs) (drop_draws ?m ?rng1) = idx'"
      using stream_with_draws [OF i(2), of ?m] i(1) by simp
    with flags [of ?rng1] i(3) have "\<exists>out1 rng1'.
                     set_markers p img spiking_classes non_spiking_classes (out, ?rng1)
                       = (None, out1, rng1')
                     \<and> (\<forall>n \<in> set (class_block p k).
                           depress out1 ! n = (if n \<in> T then 1 else 0)
                           \<and> potentiate out1 ! n = 0 \<and> hold out1 ! n = 0)"
      by simp
    then have "\<exists>rng1 out1 rng1'.
                     set_markers p img spiking_classes non_spiking_classes (out, rng1)
                       = (None, out1, rng1')
                     \<and> (\<forall>n \<in> set (class_block p k).
                           depress out1 ! n = (if n \<in> T then 1 else 0)
                           \<and> potentiate out1 ! n = 0 \<and> hold out1 ! n = 0)"
      by (rule exI [of _ ?rng1])
    with cs show "card (selections xs d T) = fact d
               \<and> (\<exists>rng1 out1 rng1'.
                     set_markers p img spiking_classes non_spiking_classes (out, rng1)
                       = (None, out1, rng1')
                     \<and> (\<forall>n \<in> set (class_block p k).
                           depress out1 ! n = (if n \<in> T then 1 else 0)
                           \<and> potentiate out1 ! n = 0 \<and> hold out1 ! n = 0))" ..
  qed
  from g1 g2 g3 g4 g5 g6 show ?thesis by (intro conjI)
qed

theorem target_class_markers_witness:
  "class_partition marker_parameters [[0], [3, 5]] [[1, 2], [4]]
   \<and> class' marker_image < class_amount marker_parameters
   \<and> active_threshold marker_parameters \<le> class_size marker_parameters
   \<and> flags_reset marker_parameters marker_state
   \<and> [0] = draw_indices 1 (length [1, 2 :: nat])
              (drop_draws (draws_before marker_parameters 0 [[0], [3, 5]] 0) (\<lambda>i. i))
   \<and> {1 :: nat} = set (picks [0] [1, 2])
   \<and> (\<exists>out' rng'.
         set_markers marker_parameters marker_image [[0], [3, 5]] [[1, 2], [4]]
           (marker_state, \<lambda>i. i) = (None, out', rng')
         \<and> potentiate out' = [0, 1, 0, 0, 0, 0] \<and> hold out' = [1, 0, 1, 0, 0, 0])
   \<and> card (index_seqs 2 1) = 2
   \<and> {2 :: nat} \<subseteq> set [1, 2] \<and> card {2 :: nat} = 1
   \<and> card (selections [1, 2] 1 {2}) = 1
   \<and> (\<exists>rng1 out1 rng1'.
         set_markers marker_parameters marker_image [[0], [3, 5]] [[1, 2], [4]]
           (marker_state, rng1) = (None, out1, rng1')
         \<and> potentiate out1 ! 1 = 0 \<and> potentiate out1 ! 2 = 1
         \<and> hold out1 ! 0 = 1 \<and> hold out1 ! 1 = 1 \<and> hold out1 ! 2 = 0)"
proof -
  have c: "class' marker_image < class_amount marker_parameters"
    by (simp add: marker_image_def marker_parameters_def)
  have a: "active_threshold marker_parameters \<le> class_size marker_parameters"
    by (simp add: marker_parameters_def brawn_parameters_def)
  have e1: "(0 :: nat) = class' marker_image"
    by (simp add: marker_image_def)
  have e2: "[1, 2 :: nat] = [[1, 2], [4]] ! 0"
    by simp
  have e3: "(1 :: nat) = active_threshold marker_parameters - length ([[0], [3, 5 :: nat]] ! 0)"
    by (simp add: marker_parameters_def brawn_parameters_def)
  have e4: "[0] = draw_indices 1 (length [1, 2 :: nat])
              (drop_draws (draws_before marker_parameters 0 [[0], [3, 5]] 0) (\<lambda>i. i))"
    by (simp add: draws_before_def)
  have e5: "{1 :: nat} = set (picks [0] [1, 2])"
    by simp
  note inst = target_class_markers [OF marker_partition c a marker_reset e1 e2 e3 e4 e5]
  note r1 = inst [THEN conjunct1]
  note r5 = inst [THEN conjunct2, THEN conjunct2, THEN conjunct2, THEN conjunct2, THEN conjunct1]
  note r6 = inst [THEN conjunct2, THEN conjunct2, THEN conjunct2, THEN conjunct2, THEN conjunct2]
  from r1 obtain out' rng' where
    sm: "set_markers marker_parameters marker_image [[0], [3, 5]] [[1, 2], [4]]
           (marker_state, \<lambda>i. i) = (None, out', rng')"
    by (elim exE conjE)
  from sm marker_run have "potentiate out' = [0, 1, 0, 0, 0, 0]" "hold out' = [1, 0, 1, 0, 0, 0]"
    by simp_all
  with sm have w1: "\<exists>out' rng'.
         set_markers marker_parameters marker_image [[0], [3, 5]] [[1, 2], [4]]
           (marker_state, \<lambda>i. i) = (None, out', rng')
         \<and> potentiate out' = [0, 1, 0, 0, 0, 0] \<and> hold out' = [1, 0, 1, 0, 0, 0]"
    by (intro exI [of _ out'] exI [of _ rng'] conjI)
  have w2: "card (index_seqs 2 1) = 2"
    using r5 by (simp add: numeral_2_eq_2)
  have t: "{2 :: nat} \<subseteq> set [1, 2] \<and> card {2 :: nat} = 1"
    by simp
  then have w3: "{2 :: nat} \<subseteq> set [1, 2]" and w4: "card {2 :: nat} = 1"
    by simp_all
  note r7 = r6 [rule_format, OF t]
  have w5: "card (selections [1, 2] 1 {2}) = 1"
    using r7 [THEN conjunct1] by simp
  from r7 [THEN conjunct2] obtain rng1 out1 rng1' where
    sm1: "set_markers marker_parameters marker_image [[0], [3, 5]] [[1, 2], [4]]
           (marker_state, rng1) = (None, out1, rng1')"
    and fl: "\<forall>n \<in> set (class_block marker_parameters 0).
               potentiate out1 ! n = (if n \<in> {2} then 1 else 0)
               \<and> hold out1 ! n = (if n \<in> {2} then 0 else 1)"
    by (elim exE conjE)
  have mem: "0 \<in> set (class_block marker_parameters 0)" "1 \<in> set (class_block marker_parameters 0)"
    "2 \<in> set (class_block marker_parameters 0)"
    by (simp_all add: set_class_block marker_parameters_def)
  from fl [rule_format, OF mem(1)] fl [rule_format, OF mem(2)] fl [rule_format, OF mem(3)]
  have "potentiate out1 ! 1 = 0" "potentiate out1 ! 2 = 1"
    "hold out1 ! 0 = 1" "hold out1 ! 1 = 1" "hold out1 ! 2 = 0"
    by simp_all
  with sm1 have w6: "\<exists>rng1 out1 rng1'.
         set_markers marker_parameters marker_image [[0], [3, 5]] [[1, 2], [4]]
           (marker_state, rng1) = (None, out1, rng1')
         \<and> potentiate out1 ! 1 = 0 \<and> potentiate out1 ! 2 = 1
         \<and> hold out1 ! 0 = 1 \<and> hold out1 ! 1 = 1 \<and> hold out1 ! 2 = 0"
    by (intro exI [of _ rng1] exI [of _ out1] exI [of _ rng1'] conjI)
  from marker_partition c a marker_reset e4 e5 w1 w2 w3 w4 w5 w6 show ?thesis
    by (intro conjI)
qed

theorem other_class_markers_witness:
  "class_partition marker_parameters [[0], [3, 5]] [[1, 2], [4]]
   \<and> active_threshold marker_parameters \<le> class_size marker_parameters
   \<and> flags_reset marker_parameters marker_state
   \<and> 1 < class_amount marker_parameters \<and> 1 \<noteq> class' marker_image
   \<and> [1, 0] = draw_indices 2 (length [3, 5 :: nat])
                 (drop_draws (draws_before marker_parameters (class' marker_image) [[0], [3, 5]] 1)
                    (\<lambda>i. i))
   \<and> {3, 5 :: nat} = set (picks [1, 0] [3, 5])
   \<and> (\<exists>out' rng'.
         set_markers marker_parameters marker_image [[0], [3, 5]] [[1, 2], [4]]
           (marker_state, \<lambda>i. i) = (None, out', rng')
         \<and> depress out' = [0, 0, 0, 1, 0, 1])
   \<and> card (index_seqs 2 2) = 2
   \<and> {3, 5 :: nat} \<subseteq> set [3, 5] \<and> card {3, 5 :: nat} = 2
   \<and> card (selections [3, 5] 2 {3, 5}) = 2
   \<and> (\<exists>rng1 out1 rng1'.
         set_markers marker_parameters marker_image [[0], [3, 5]] [[1, 2], [4]]
           (marker_state, rng1) = (None, out1, rng1')
         \<and> depress out1 ! 3 = 1 \<and> depress out1 ! 4 = 0 \<and> depress out1 ! 5 = 1
         \<and> potentiate out1 ! 4 = 0 \<and> hold out1 ! 4 = 0)"
proof -
  have k: "1 < class_amount marker_parameters" and kc: "1 \<noteq> class' marker_image"
    by (simp_all add: marker_image_def marker_parameters_def)
  have a: "active_threshold marker_parameters \<le> class_size marker_parameters"
    by (simp add: marker_parameters_def brawn_parameters_def)
  have e2: "[3, 5 :: nat] = [[0], [3, 5]] ! 1"
    by simp
  have e3: "(2 :: nat) = length [3, 5 :: nat] - inactive_threshold marker_parameters"
    by (simp add: marker_parameters_def brawn_parameters_def)
  have e4: "[1, 0] = draw_indices 2 (length [3, 5 :: nat])
                 (drop_draws (draws_before marker_parameters (class' marker_image) [[0], [3, 5]] 1)
                    (\<lambda>i. i))"
    by (simp add: draws_before_def draw_count_def drop_draws_def marker_image_def
        marker_parameters_def brawn_parameters_def numeral_2_eq_2)
  have e5: "{3, 5 :: nat} = set (picks [1, 0] [3, 5])"
    by auto
  note inst = other_class_markers [OF marker_partition a marker_reset k kc e2 e3 e4 e5]
  note r1 = inst [THEN conjunct1]
  note r5 = inst [THEN conjunct2, THEN conjunct2, THEN conjunct2, THEN conjunct2, THEN conjunct1]
  note r6 = inst [THEN conjunct2, THEN conjunct2, THEN conjunct2, THEN conjunct2, THEN conjunct2]
  from r1 obtain out' rng' where
    sm: "set_markers marker_parameters marker_image [[0], [3, 5]] [[1, 2], [4]]
           (marker_state, \<lambda>i. i) = (None, out', rng')"
    by (elim exE conjE)
  from sm marker_run have "depress out' = [0, 0, 0, 1, 0, 1]"
    by simp
  with sm have w1: "\<exists>out' rng'.
         set_markers marker_parameters marker_image [[0], [3, 5]] [[1, 2], [4]]
           (marker_state, \<lambda>i. i) = (None, out', rng')
         \<and> depress out' = [0, 0, 0, 1, 0, 1]"
    by (intro exI [of _ out'] exI [of _ rng'] conjI)
  have w2: "card (index_seqs 2 2) = 2"
    using r5 by (simp add: numeral_2_eq_2)
  have t: "{3, 5 :: nat} \<subseteq> set [3, 5] \<and> card {3, 5 :: nat} = 2"
    by simp
  then have w3: "{3, 5 :: nat} \<subseteq> set [3, 5]" and w4: "card {3, 5 :: nat} = 2"
    by simp_all
  note r7 = r6 [rule_format, OF t]
  have w5: "card (selections [3, 5] 2 {3, 5}) = 2"
    using r7 [THEN conjunct1] by (simp add: numeral_2_eq_2)
  from r7 [THEN conjunct2] obtain rng1 out1 rng1' where
    sm1: "set_markers marker_parameters marker_image [[0], [3, 5]] [[1, 2], [4]]
           (marker_state, rng1) = (None, out1, rng1')"
    and fl: "\<forall>n \<in> set (class_block marker_parameters 1).
               depress out1 ! n = (if n \<in> {3, 5} then 1 else 0)
               \<and> potentiate out1 ! n = 0 \<and> hold out1 ! n = 0"
    by (elim exE conjE)
  have mem: "3 \<in> set (class_block marker_parameters 1)" "4 \<in> set (class_block marker_parameters 1)"
    "5 \<in> set (class_block marker_parameters 1)"
    by (simp_all add: set_class_block marker_parameters_def)
  from fl [rule_format, OF mem(1)] fl [rule_format, OF mem(2)] fl [rule_format, OF mem(3)]
  have "depress out1 ! 3 = 1" "depress out1 ! 4 = 0" "depress out1 ! 5 = 1"
    "potentiate out1 ! 4 = 0" "hold out1 ! 4 = 0"
    by simp_all
  with sm1 have w6: "\<exists>rng1 out1 rng1'.
         set_markers marker_parameters marker_image [[0], [3, 5]] [[1, 2], [4]]
           (marker_state, rng1) = (None, out1, rng1')
         \<and> depress out1 ! 3 = 1 \<and> depress out1 ! 4 = 0 \<and> depress out1 ! 5 = 1
         \<and> potentiate out1 ! 4 = 0 \<and> hold out1 ! 4 = 0"
    by (intro exI [of _ rng1] exI [of _ out1] exI [of _ rng1'] conjI)
  from marker_partition a marker_reset k kc e4 e5 w1 w2 w3 w4 w5 w6 show ?thesis
    by (intro conjI)
qed

end
